theory Spec2Isabelle
  imports Main "HOL-Library.Word" "HOL-Library.AList"
begin

unbundle bit_operations_syntax

section \<open>Text and bytes\<close>

text \<open>
  A JavaScript string is a sequence of UTF-16 code units; a payload (\<open>Uint8Array\<close>) is a
  sequence of bytes. Offsets, cursors, content types and messages are opaque strings whose
  characters are never inspected, so they stay \<^typ>\<open>string\<close>; payload text is inspected
  character by character and may hold any code unit.
\<close>

type_synonym jstring = "nat list"
type_synonym bytes = "8 word list"

definition str :: "string \<Rightarrow> jstring" where
  \<comment> \<open>the code units of an ASCII literal\<close>
  "str s = map of_char s"

definition utf8 :: "string \<Rightarrow> bytes" where
  \<comment> \<open>the bytes of an ASCII literal\<close>
  "utf8 s = map of_char s"

subsection \<open>\<open>String.prototype.split("\n")\<close> and \<open>String.prototype.trim\<close>\<close>

fun split_newline :: "jstring \<Rightarrow> jstring list" where
  "split_newline [] = [[]]"
| "split_newline (c # cs) =
     (if c = 0x0A then [] # split_newline cs
      else (case split_newline cs of
              [] \<Rightarrow> [[c]]
            | l # ls \<Rightarrow> (c # l) # ls))"

definition is_js_space :: "nat \<Rightarrow> bool" where
  \<comment> \<open>ECMAScript WhiteSpace and LineTerminator code units, the ones \<open>trim\<close> strips\<close>
  "is_js_space c \<longleftrightarrow>
     c = 0x09 \<or> c = 0x0A \<or> c = 0x0B \<or> c = 0x0C \<or> c = 0x0D \<or> c = 0x20 \<or> c = 0xA0 \<or>
     c = 0x1680 \<or> (0x2000 \<le> c \<and> c \<le> 0x200A) \<or> c = 0x2028 \<or> c = 0x2029 \<or>
     c = 0x202F \<or> c = 0x205F \<or> c = 0x3000 \<or> c = 0xFEFF"

definition trim :: "jstring \<Rightarrow> jstring" where
  "trim l = rev (dropWhile is_js_space (rev (dropWhile is_js_space l)))"

definition truthy :: "jstring \<Rightarrow> bool" where
  \<comment> \<open>a string used as a condition: the empty string is falsy\<close>
  "truthy l \<longleftrightarrow> l \<noteq> []"

section \<open>\<open>JSON.parse\<close>\<close>

text \<open>
  The values \<open>JSON.parse\<close> returns. A number is kept as its exact decimal value
  \<open>m * 10 ^ e\<close> with \<open>m\<close> not divisible by ten (zero is \<open>JNumber 0 0\<close>); the rounding
  to a double is not modelled. An object is the list of its properties in the order of
  their first occurrence, a repeated key keeping its last value.
\<close>

datatype json =
    JNull
  | JBool bool
  | JNumber int int
  | JString jstring
  | JArray "json list"
  | JObject "(jstring \<times> json) list"

definition is_json_ws :: "nat \<Rightarrow> bool" where
  "is_json_ws c \<longleftrightarrow> c = 0x20 \<or> c = 0x09 \<or> c = 0x0A \<or> c = 0x0D"

definition skip_ws :: "jstring \<Rightarrow> jstring" where
  "skip_ws cs = dropWhile is_json_ws cs"

definition is_digit :: "nat \<Rightarrow> bool" where
  "is_digit c \<longleftrightarrow> 0x30 \<le> c \<and> c \<le> 0x39"

definition hex_value :: "nat \<Rightarrow> nat option" where
  "hex_value c =
     (if 0x30 \<le> c \<and> c \<le> 0x39 then Some (c - 0x30)
      else if 0x41 \<le> c \<and> c \<le> 0x46 then Some (c - 0x41 + 10)
      else if 0x61 \<le> c \<and> c \<le> 0x66 then Some (c - 0x61 + 10)
      else None)"

definition escape_char :: "nat \<Rightarrow> nat option" where
  \<comment> \<open>the character after a backslash, \<open>u\<close> apart\<close>
  "escape_char c =
     (if c = 0x22 then Some 0x22
      else if c = 0x5C then Some 0x5C
      else if c = 0x2F then Some 0x2F
      else if c = 0x62 then Some 0x08
      else if c = 0x66 then Some 0x0C
      else if c = 0x6E then Some 0x0A
      else if c = 0x72 then Some 0x0D
      else if c = 0x74 then Some 0x09
      else None)"

definition unicode_escape :: "nat \<Rightarrow> nat \<Rightarrow> nat \<Rightarrow> nat \<Rightarrow> nat option" where
  "unicode_escape a b c d =
     (case (hex_value a, hex_value b, hex_value c, hex_value d) of
        (Some h3, Some h2, Some h1, Some h0) \<Rightarrow> Some (((h3 * 16 + h2) * 16 + h1) * 16 + h0)
      | _ \<Rightarrow> None)"

definition push_char :: "nat \<Rightarrow> (jstring \<times> jstring) option \<Rightarrow> (jstring \<times> jstring) option" where
  "push_char c r = (case r of None \<Rightarrow> None | Some (s, rest) \<Rightarrow> Some (c # s, rest))"

text \<open>The characters of a string literal after its opening quote, and what follows it.\<close>

fun parse_chars :: "jstring \<Rightarrow> (jstring \<times> jstring) option" where
  "parse_chars [] = None"
| "parse_chars (c # cs) =
     (if c = 0x22 then Some ([], cs)
      else if c = 0x5C then
        (case cs of
           [] \<Rightarrow> None
         | e # r \<Rightarrow>
             if e = 0x75 then
               (case r of
                  h3 # h2 # h1 # h0 # r' \<Rightarrow>
                    (case unicode_escape h3 h2 h1 h0 of
                       None \<Rightarrow> None
                     | Some u \<Rightarrow> push_char u (parse_chars r'))
                | _ \<Rightarrow> None)
             else
               (case escape_char e of
                  None \<Rightarrow> None
                | Some u \<Rightarrow> push_char u (parse_chars r)))
      else if c < 0x20 then None
      else push_char c (parse_chars cs))"

definition digits_value :: "jstring \<Rightarrow> nat" where
  "digits_value ds = foldl (\<lambda>n d. 10 * n + (d - 0x30)) 0 ds"

definition decimal :: "bool \<Rightarrow> jstring \<Rightarrow> int \<Rightarrow> json" where
  \<comment> \<open>the number with sign \<open>neg\<close>, digit string \<open>ds\<close> and exponent \<open>e\<close>, trailing zeros
      of the digits moved into the exponent\<close>
  "decimal neg ds e =
     (let z = length (takeWhile (\<lambda>d. d = 0x30) (rev ds));
          m = digits_value (take (length ds - z) ds)
      in if m = 0 then JNumber 0 0
         else JNumber (if neg then - int m else int m) (e + int z))"

definition parse_int_part :: "jstring \<Rightarrow> (jstring \<times> jstring) option" where
  \<comment> \<open>\<open>0\<close> or a digit string that does not start with \<open>0\<close>\<close>
  "parse_int_part cs =
     (case cs of
        [] \<Rightarrow> None
      | c # r \<Rightarrow>
          if c = 0x30 then Some ([c], r)
          else if is_digit c then Some (takeWhile is_digit cs, dropWhile is_digit cs)
          else None)"

definition parse_frac_part :: "jstring \<Rightarrow> (jstring \<times> jstring) option" where
  "parse_frac_part cs =
     (case cs of
        [] \<Rightarrow> Some ([], cs)
      | c # r \<Rightarrow>
          if c = 0x2E then
            (if takeWhile is_digit r = [] then None
             else Some (takeWhile is_digit r, dropWhile is_digit r))
          else Some ([], cs))"

definition parse_exp_part :: "jstring \<Rightarrow> (int \<times> jstring) option" where
  "parse_exp_part cs =
     (case cs of
        [] \<Rightarrow> Some (0, cs)
      | c # r \<Rightarrow>
          if c = 0x65 \<or> c = 0x45 then
            (let neg = (case r of [] \<Rightarrow> False | s # _ \<Rightarrow> s = 0x2D);
                 r' = (case r of [] \<Rightarrow> r | s # t \<Rightarrow> if s = 0x2B \<or> s = 0x2D then t else r)
             in if takeWhile is_digit r' = [] then None
                else Some ((if neg then - int (digits_value (takeWhile is_digit r'))
                            else int (digits_value (takeWhile is_digit r'))),
                           dropWhile is_digit r'))
          else Some (0, cs))"

definition parse_number :: "jstring \<Rightarrow> (json \<times> jstring) option" where
  "parse_number cs =
     (let neg = (case cs of [] \<Rightarrow> False | c # _ \<Rightarrow> c = 0x2D);
          cs1 = (if neg then tl cs else cs)
      in case parse_int_part cs1 of
           None \<Rightarrow> None
         | Some (ids, cs2) \<Rightarrow>
             (case parse_frac_part cs2 of
                None \<Rightarrow> None
              | Some (fds, cs3) \<Rightarrow>
                  (case parse_exp_part cs3 of
                     None \<Rightarrow> None
                   | Some (e, cs4) \<Rightarrow>
                       Some (decimal neg (ids @ fds) (e - int (length fds)), cs4))))"

definition parse_literal :: "jstring \<Rightarrow> (json \<times> jstring) option" where
  "parse_literal cs =
     (if take 4 cs = str ''true'' then Some (JBool True, drop 4 cs)
      else if take 5 cs = str ''false'' then Some (JBool False, drop 5 cs)
      else if take 4 cs = str ''null'' then Some (JNull, drop 4 cs)
      else None)"

definition define_property :: "(jstring \<times> json) list \<Rightarrow> jstring \<times> json \<Rightarrow> (jstring \<times> json) list" where
  "define_property ps kv = AList.update (fst kv) (snd kv) ps"

text \<open>
  The grammar of ECMA-404 by recursive descent. The first argument bounds the number of
  nested calls; \<open>JSON_parse\<close> starts with more than any text of that length needs.
\<close>

fun parse_value :: "nat \<Rightarrow> jstring \<Rightarrow> (json \<times> jstring) option"
  and parse_elements :: "nat \<Rightarrow> jstring \<Rightarrow> (json list \<times> jstring) option"
  and parse_members :: "nat \<Rightarrow> jstring \<Rightarrow> ((jstring \<times> json) list \<times> jstring) option"
where
  "parse_value 0 cs = None"
| "parse_value (Suc n) [] = None"
| "parse_value (Suc n) (c # cs) =
     (if c = 0x5B then
        (case skip_ws cs of
           [] \<Rightarrow> None
         | d # r \<Rightarrow>
             if d = 0x5D then Some (JArray [], r)
             else (case parse_elements n (d # r) of
                     None \<Rightarrow> None
                   | Some (vs, r') \<Rightarrow> Some (JArray vs, r')))
      else if c = 0x7B then
        (case skip_ws cs of
           [] \<Rightarrow> None
         | d # r \<Rightarrow>
             if d = 0x7D then Some (JObject [], r)
             else (case parse_members n (d # r) of
                     None \<Rightarrow> None
                   | Some (ms, r') \<Rightarrow> Some (JObject (foldl define_property [] ms), r')))
      else if c = 0x22 then
        (case parse_chars cs of
           None \<Rightarrow> None
         | Some (s, r) \<Rightarrow> Some (JString s, r))
      else if c = 0x2D \<or> is_digit c then parse_number (c # cs)
      else parse_literal (c # cs))"
| "parse_elements 0 cs = None"
| "parse_elements (Suc n) cs =
     (case parse_value n cs of
        None \<Rightarrow> None
      | Some (v, r) \<Rightarrow>
          (case skip_ws r of
             [] \<Rightarrow> None
           | d # r' \<Rightarrow>
               if d = 0x2C then
                 (case parse_elements n (skip_ws r') of
                    None \<Rightarrow> None
                  | Some (vs, r'') \<Rightarrow> Some (v # vs, r''))
               else if d = 0x5D then Some ([v], r')
               else None))"
| "parse_members 0 cs = None"
| "parse_members (Suc n) cs =
     (case cs of
        [] \<Rightarrow> None
      | q # r \<Rightarrow>
          if q \<noteq> 0x22 then None
          else
            (case parse_chars r of
               None \<Rightarrow> None
             | Some (k, r1) \<Rightarrow>
                 (case skip_ws r1 of
                    [] \<Rightarrow> None
                  | col # r2 \<Rightarrow>
                      if col \<noteq> 0x3A then None
                      else
                        (case parse_value n (skip_ws r2) of
                           None \<Rightarrow> None
                         | Some (v, r3) \<Rightarrow>
                             (case skip_ws r3 of
                                [] \<Rightarrow> None
                              | d # r4 \<Rightarrow>
                                  if d = 0x2C then
                                    (case parse_members n (skip_ws r4) of
                                       None \<Rightarrow> None
                                     | Some (ms, r5) \<Rightarrow> Some ((k, v) # ms, r5))
                                  else if d = 0x7D then Some ([(k, v)], r4)
                                  else None)))))"

definition JSON_parse :: "jstring \<Rightarrow> json option" where
  \<comment> \<open>\<open>None\<close> is the SyntaxError\<close>
  "JSON_parse t =
     (case parse_value (Suc (Suc (length t + length t))) (skip_ws t) of
        None \<Rightarrow> None
      | Some (v, r) \<Rightarrow> if skip_ws r = [] then Some v else None)"

section \<open>Decoding a payload into records\<close>

datatype thrown =
    DurableStreamError string string
  | SyntaxError
  | TypeError
  | ErrorObject string
  | NonError string

text \<open>
  What a \<open>throw\<close> carries: a \<open>DurableStreamError\<close> (a class of the module \<open>./error\<close>,
  constructed here from a message and a code) with its message and code, the
  \<open>SyntaxError\<close> of \<open>JSON.parse\<close>, the \<open>TypeError\<close> of a stream controller that is no
  longer writable, any other \<open>Error\<close> object, or a value that is not an \<open>Error\<close>
  (given by its \<open>String(...)\<close>).
\<close>

fun map_JSON_parse :: "jstring list \<Rightarrow> thrown + json list" where
  \<comment> \<open>\<open>lines.map((line) => JSON.parse(line))\<close>: the first line that fails throws\<close>
  "map_JSON_parse [] = Inr []"
| "map_JSON_parse (l # ls) =
     (case JSON_parse l of
        None \<Rightarrow> Inl SyntaxError
      | Some v \<Rightarrow>
          (case map_JSON_parse ls of
             Inl e \<Rightarrow> Inl e
           | Inr vs \<Rightarrow> Inr (v # vs)))"

definition parseJsonChunk :: "jstring \<Rightarrow> thrown + json list" where
  "parseJsonChunk t =
     (case JSON_parse t of
        Some parsed \<Rightarrow>
          (case parsed of
             JArray items \<Rightarrow> Inr items
           | _ \<Rightarrow> Inr [parsed])
      | None \<Rightarrow>
          map_JSON_parse (filter (\<lambda>l. truthy (trim l)) (split_newline t)))"

section \<open>\<open>TextDecoder\<close>\<close>

text \<open>
  The platform's UTF-8 decoder (WHATWG Encoding: replacement error mode, the byte order
  mark stripped). A decoder keeps the state of an unfinished sequence between two calls
  made with \<open>{stream: true}\<close>; any other call starts from a fresh state.
\<close>

record TextDecoder =
  code_point :: nat
  bytes_seen :: nat
  bytes_needed :: nat
  lower_boundary :: nat
  upper_boundary :: nat
  bom_seen :: bool
  do_not_flush :: bool

definition new_TextDecoder :: TextDecoder where
  "new_TextDecoder =
     \<lparr>code_point = 0, bytes_seen = 0, bytes_needed = 0, lower_boundary = 0x80,
      upper_boundary = 0xBF, bom_seen = False, do_not_flush = False\<rparr>"

definition reset_sequence :: "TextDecoder \<Rightarrow> TextDecoder" where
  "reset_sequence d =
     d\<lparr>code_point := 0, bytes_seen := 0, bytes_needed := 0, lower_boundary := 0x80,
       upper_boundary := 0xBF\<rparr>"

definition lead_byte :: "TextDecoder \<Rightarrow> 8 word \<Rightarrow> nat list \<times> TextDecoder" where
  \<comment> \<open>a byte met when no sequence is open\<close>
  "lead_byte d b =
     (if b \<le> 0x7F then ([unat b], d)
      else if 0xC2 \<le> b \<and> b \<le> 0xDF then
        ([], d\<lparr>bytes_needed := 1, code_point := unat (b AND 0x1F)\<rparr>)
      else if 0xE0 \<le> b \<and> b \<le> 0xEF then
        ([], d\<lparr>lower_boundary := (if b = 0xE0 then 0xA0 else lower_boundary d),
                upper_boundary := (if b = 0xED then 0x9F else upper_boundary d),
                bytes_needed := 2, code_point := unat (b AND 0x0F)\<rparr>)
      else if 0xF0 \<le> b \<and> b \<le> 0xF4 then
        ([], d\<lparr>lower_boundary := (if b = 0xF0 then 0x90 else lower_boundary d),
                upper_boundary := (if b = 0xF4 then 0x8F else upper_boundary d),
                bytes_needed := 3, code_point := unat (b AND 0x07)\<rparr>)
      else ([0xFFFD], d))"

definition utf8_byte :: "TextDecoder \<Rightarrow> 8 word \<Rightarrow> nat list \<times> TextDecoder" where
  "utf8_byte d b =
     (if bytes_needed d = 0 then lead_byte d b
      else if \<not> (lower_boundary d \<le> unat b \<and> unat b \<le> upper_boundary d) then
        (let (out, d') = lead_byte (reset_sequence d) b in (0xFFFD # out, d'))
      else
        (let d1 = d\<lparr>lower_boundary := 0x80, upper_boundary := 0xBF,
                     code_point := code_point d * 64 + unat (b AND 0x3F),
                     bytes_seen := bytes_seen d + 1\<rparr>
         in if bytes_seen d1 \<noteq> bytes_needed d1 then ([], d1)
            else ([code_point d1], reset_sequence d1)))"

fun utf8_bytes :: "TextDecoder \<Rightarrow> bytes \<Rightarrow> nat list \<times> TextDecoder" where
  "utf8_bytes d [] = ([], d)"
| "utf8_bytes d (b # bs) =
     (let (out, d1) = utf8_byte d b;
          (outs, d2) = utf8_bytes d1 bs
      in (out @ outs, d2))"

definition utf8_end :: "TextDecoder \<Rightarrow> nat list \<times> TextDecoder" where
  \<comment> \<open>the end of the input: an unfinished sequence decodes to U+FFFD\<close>
  "utf8_end d = (if bytes_needed d \<noteq> 0 then ([0xFFFD], reset_sequence d) else ([], d))"

definition strip_bom :: "nat list \<Rightarrow> TextDecoder \<Rightarrow> nat list \<times> TextDecoder" where
  \<comment> \<open>the first code point a decoder gives out is dropped when it is U+FEFF\<close>
  "strip_bom cps d =
     (if bom_seen d then (cps, d)
      else (case cps of
              [] \<Rightarrow> (cps, d)
            | c # r \<Rightarrow> (if c = 0xFEFF then r else cps, d\<lparr>bom_seen := True\<rparr>)))"

definition utf16 :: "nat \<Rightarrow> jstring" where
  "utf16 c =
     (if c < 0x10000 then [c]
      else [0xD800 + (c - 0x10000) div 0x400, 0xDC00 + (c - 0x10000) mod 0x400])"

definition decode :: "bool \<Rightarrow> bytes \<Rightarrow> TextDecoder \<Rightarrow> jstring \<times> TextDecoder" where
  \<comment> \<open>\<open>decoder.decode(input, {stream})\<close>\<close>
  "decode stream input d =
     (let d0 = (if do_not_flush d then d else new_TextDecoder);
          d1 = d0\<lparr>do_not_flush := stream\<rparr>;
          (out, d2) = utf8_bytes d1 input;
          (fin, d3) = (if stream then ([], d2) else utf8_end d2);
          (cps, d4) = strip_bom (out @ fin) d3
      in (concat (map utf16 cps), d4))"

section \<open>The session\<close>

datatype SessionState = Ready | Consuming | Closed

text \<open>
  Modelled from the spec: the type \<open>LiveMode\<close> is declared in the module \<open>./types\<close>, which
  is not among the sources modelled here. The specification names three policies (disabled, long-poll continuation, push
  continuation); the code tests \<open>live === false\<close> and \<open>live === `sse`\<close> and treats every
  other value as long-poll.
\<close>

datatype LiveMode = LiveOff | LiveLongPoll | LiveSSE

text \<open>
  The three header names are constants of the module \<open>./constants\<close>; only their being
  distinct matters, and they are kept symbolic. A response is its headers and its body as the successive results of
  \<open>reader.read()\<close>, the end of the list being \<open>done\<close>; a body that never ends is not
  modelled.
\<close>

datatype header_name = STREAM_OFFSET_HEADER | STREAM_CURSOR_HEADER | STREAM_UP_TO_DATE_HEADER

datatype read_result = Chunk bytes | ReadThrows thrown

record Response =
  headers :: "header_name \<Rightarrow> string option"
  body :: "read_result list option"

datatype ByteChunk =
  ByteChunk (data: bytes) (chunk_offset: string) (chunk_cursor: "string option")
    (chunk_upToDate: bool)

datatype settle = Resolve | Reject thrown

datatype SseIterator = SseIterator (has_return: bool) (return_calls: nat)

datatype transport_call =
    FetchNext string "string option"
  | StartSSE string "string option"

record StreamResponseConfig =
  config_url :: string
  config_contentType :: "string option"
  config_live :: LiveMode
  config_startOffset :: string
  config_isJsonMode :: bool
  config_initialOffset :: string
  config_initialCursor :: "string option"
  config_initialUpToDate :: bool
  config_firstResponse :: Response
  config_aborted :: bool
  config_startSSE :: bool

text \<open>
  The fields of \<open>StreamResponseImpl\<close>. The abort controller is its \<open>signal.aborted\<close>
  flag; the \<open>closed\<close> promise is the list of the calls made to its two resolving
  functions, in order (the promise takes the first); \<open>startSSE\<close> is whether the optional
  function was given; \<open>transport\<close> records the calls made to \<open>fetchNext\<close> and \<open>startSSE\<close>
  with the offset and cursor passed.
\<close>

record Session =
  url :: string
  contentType :: "string option"
  live :: LiveMode
  startOffset :: string
  offset :: string
  cursor :: "string option"
  upToDate :: bool
  state :: SessionState
  isJsonMode :: bool
  firstResponse :: "Response option"
  aborted :: bool
  startSSE :: bool
  closedCalls :: "settle list"
  stopAfterUpToDate :: bool
  sseIterator :: "SseIterator option"
  transport :: "transport_call list"

definition new_StreamResponse :: "StreamResponseConfig \<Rightarrow> Session" where
  "new_StreamResponse config =
     \<lparr>url = config_url config,
      contentType = config_contentType config,
      live = config_live config,
      startOffset = config_startOffset config,
      offset = config_initialOffset config,
      cursor = config_initialCursor config,
      upToDate = config_initialUpToDate config,
      state = Ready,
      isJsonMode = config_isJsonMode config,
      firstResponse = Some (config_firstResponse config),
      aborted = config_aborted config,
      startSSE = config_startSSE config,
      closedCalls = [],
      stopAfterUpToDate = False,
      sseIterator = None,
      transport = []\<rparr>"

datatype promise_state = Pending | Fulfilled | Rejected thrown

definition closed :: "Session \<Rightarrow> promise_state" where
  \<comment> \<open>the \<open>closed\<close> promise: settled by the first call, later calls are ignored\<close>
  "closed s =
     (case closedCalls s of
        [] \<Rightarrow> Pending
      | Resolve # _ \<Rightarrow> Fulfilled
      | Reject e # _ \<Rightarrow> Rejected e)"

subsection \<open>Internal helpers\<close>

definition show_contentType :: "string option \<Rightarrow> string" where
  \<comment> \<open>the field inside a template literal\<close>
  "show_contentType c = (case c of None \<Rightarrow> ''undefined'' | Some t \<Rightarrow> t)"

definition ensureJsonMode :: "Session \<Rightarrow> thrown + unit" where
  "ensureJsonMode s =
     (if \<not> isJsonMode s then
        Inl (DurableStreamError
               (''JSON methods are only valid for JSON-mode streams. '' @
                ''Content-Type is '' @ [CHR 0x22] @ show_contentType (contentType s) @ [CHR 0x22] @
                '' and json hint was not set.'')
               ''BAD_REQUEST'')
      else Inr ())"

definition markConsuming :: "Session \<Rightarrow> Session" where
  "markConsuming s = (if state s = Ready then s\<lparr>state := Consuming\<rparr> else s)"

definition markClosed :: "Session \<Rightarrow> Session" where
  "markClosed s =
     (if state s \<noteq> Closed then s\<lparr>state := Closed, closedCalls := closedCalls s @ [Resolve]\<rparr>
      else s)"

definition markError :: "thrown \<Rightarrow> Session \<Rightarrow> Session" where
  "markError err s =
     (if state s \<noteq> Closed then s\<lparr>state := Closed, closedCalls := closedCalls s @ [Reject err]\<rparr>
      else s)"

definition shouldContinueLive :: "Session \<Rightarrow> bool" where
  "shouldContinueLive s =
     (if stopAfterUpToDate s then False
      else if live s = LiveOff then False
      else True)"

definition updateStateFromResponse :: "Response \<Rightarrow> Session \<Rightarrow> Session" where
  \<comment> \<open>\<open>if (offset)\<close> on the result of \<open>headers.get\<close>: null and the empty string are falsy\<close>
  "updateStateFromResponse response s =
     (let s1 = (case headers response STREAM_OFFSET_HEADER of
                  None \<Rightarrow> s
                | Some v \<Rightarrow> if v \<noteq> [] then s\<lparr>offset := v\<rparr> else s);
          s2 = (case headers response STREAM_CURSOR_HEADER of
                  None \<Rightarrow> s1
                | Some v \<Rightarrow> if v \<noteq> [] then s1\<lparr>cursor := Some v\<rparr> else s1)
      in s2\<lparr>upToDate := (headers response STREAM_UP_TO_DATE_HEADER \<noteq> None)\<rparr>)"

definition to_Error :: "thrown \<Rightarrow> thrown" where
  \<comment> \<open>\<open>err instanceof Error ? err : new Error(String(err))\<close>\<close>
  "to_Error err = (case err of NonError v \<Rightarrow> ErrorObject v | _ \<Rightarrow> err)"

subsection \<open>The byte stream and its controller\<close>

text \<open>
  The \<open>ReadableStream\<close> that \<open>#createByteStream\<close> builds, as the Streams standard
  defines it: a queue of chunks, the close-requested flag and the state. The controller
  refuses \<open>enqueue\<close> and \<open>close\<close> with a \<open>TypeError\<close> once the stream is closing, closed or
  errored; \<open>error\<close> on a stream that is not readable does nothing.
\<close>

datatype stream_state = Readable | StreamClosed | Errored thrown

record ByteStream =
  firstResponseConsumed :: bool
  queue :: "ByteChunk list"
  closeRequested :: bool
  stream_state :: stream_state

definition new_ByteStream :: ByteStream where
  "new_ByteStream =
     \<lparr>firstResponseConsumed = False, queue = [], closeRequested = False,
      stream_state = Readable\<rparr>"

definition can_close_or_enqueue :: "ByteStream \<Rightarrow> bool" where
  "can_close_or_enqueue st \<longleftrightarrow> \<not> closeRequested st \<and> stream_state st = Readable"

definition controller_enqueue :: "ByteChunk \<Rightarrow> ByteStream \<Rightarrow> thrown + ByteStream" where
  "controller_enqueue c st =
     (if can_close_or_enqueue st then Inr (st\<lparr>queue := queue st @ [c]\<rparr>)
      else Inl TypeError)"

definition controller_close :: "ByteStream \<Rightarrow> thrown + ByteStream" where
  "controller_close st =
     (if can_close_or_enqueue st then
        Inr (st\<lparr>closeRequested := True,
                 stream_state := (if queue st = [] then StreamClosed else stream_state st)\<rparr>)
      else Inl TypeError)"

definition controller_error :: "thrown \<Rightarrow> ByteStream \<Rightarrow> ByteStream" where
  "controller_error e st =
     (if stream_state st = Readable then st\<lparr>queue := [], stream_state := Errored e\<rparr>
      else st)"

definition createByteStream :: "Session \<Rightarrow> ByteStream \<times> Session" where
  "createByteStream s = (new_ByteStream, markConsuming s)"

subsection \<open>Lifecycle\<close>

definition iterator_return :: "SseIterator option \<Rightarrow> SseIterator option" where
  \<comment> \<open>\<open>if (this.#sseIterator?.return) this.#sseIterator.return()\<close>\<close>
  "iterator_return it =
     (case it of
        None \<Rightarrow> None
      | Some (SseIterator r n) \<Rightarrow> Some (SseIterator r (if r then n + 1 else n)))"

definition cancel :: "Session \<Rightarrow> Session" where
  "cancel s = markClosed (s\<lparr>aborted := True, sseIterator := iterator_return (sseIterator s)\<rparr>)"

definition source_cancel :: "Session \<Rightarrow> Session" where
  \<comment> \<open>the \<open>cancel()\<close> of the underlying source\<close>
  "source_cancel s = markClosed (s\<lparr>aborted := True\<rparr>)"

definition stream_cancel :: "ByteStream \<times> Session \<Rightarrow> ByteStream \<times> Session" where
  \<comment> \<open>\<open>reader.cancel()\<close>: a stream that is closed or errored is left alone, a readable
      one is closed, its queue dropped and the source's \<open>cancel()\<close> called\<close>
  "stream_cancel p =
     (case p of (st, s) \<Rightarrow>
        if stream_state st = Readable
        then (st\<lparr>queue := [], stream_state := StreamClosed\<rparr>, source_cancel s)
        else (st, s))"

text \<open>
  What other tasks can do to a session while one of its operations is suspended at an
  \<open>await\<close>: call \<open>cancel()\<close>, abort the injected controller, or (for a stream handed to
  the caller) cancel the stream.
\<close>

datatype ext_op = Cancel | Abort | StreamCancel

fun ext_step :: "ext_op \<Rightarrow> ByteStream \<times> Session \<Rightarrow> ByteStream \<times> Session" where
  "ext_step Cancel (st, s) = (st, cancel s)"
| "ext_step Abort (st, s) = (st, s\<lparr>aborted := True\<rparr>)"
| "ext_step StreamCancel (st, s) = stream_cancel (st, s)"

definition run_ops :: "ext_op list \<Rightarrow> ByteStream \<times> Session \<Rightarrow> ByteStream \<times> Session" where
  "run_ops ops p = fold ext_step ops p"

subsection \<open>The pull of the chunk producer\<close>

text \<open>
  What the outside does during one pull: the operations other tasks perform while the
  pull is suspended, and the answers of the injected transport (\<open>startSSE\<close> throws or
  returns an iterator, with or without a \<open>return\<close> method; the iterator's \<open>next()\<close>;
  \<open>fetchNext\<close>). A pull uses the answers of the branch it takes. The two awaits of the
  long-poll branch are one suspension here.
\<close>

datatype sse_result = IterDone | IterValue ByteChunk | IterThrows thrown

record PullInput =
  interleaved :: "ext_op list"
  sse_start :: "thrown + bool"
  sse_next :: sse_result
  fetch_next :: "thrown + Response"

type_synonym pull_result = "thrown option \<times> ByteStream \<times> Session"

fun read_all :: "read_result list \<Rightarrow> bytes list \<Rightarrow> thrown + bytes list" where
  \<comment> \<open>the loop \<open>while (!result.done) { chunks.push(result.value); ... }\<close>\<close>
  "read_all [] chunks = Inr chunks"
| "read_all (Chunk v # rs) chunks = read_all rs (chunks @ [v])"
| "read_all (ReadThrows e # rs) chunks = Inl e"

definition arrayBuffer :: "Response \<Rightarrow> thrown + bytes" where
  "arrayBuffer response =
     (case body response of
        None \<Rightarrow> Inr []
      | Some rs \<Rightarrow> (case read_all rs [] of Inl e \<Rightarrow> Inl e | Inr chunks \<Rightarrow> Inr (concat chunks)))"

definition close_and_return :: "ByteStream \<times> Session \<Rightarrow> pull_result" where
  \<comment> \<open>\<open>self.#markClosed(); controller.close(); return\<close>\<close>
  "close_and_return p =
     (case p of (st, s) \<Rightarrow>
        (case controller_close st of
           Inl e \<Rightarrow> (Some e, st, markClosed s)
         | Inr st' \<Rightarrow> (None, st', markClosed s)))"

definition enqueue_current :: "bytes \<Rightarrow> ByteStream \<times> Session \<Rightarrow> thrown + ByteStream" where
  \<comment> \<open>\<open>controller.enqueue({data, offset: self.offset, cursor: self.cursor, upToDate: self.upToDate})\<close>\<close>
  "enqueue_current d p =
     (case p of (st, s) \<Rightarrow> controller_enqueue (ByteChunk d (offset s) (cursor s) (upToDate s)) st)"

definition after_first :: "bytes \<Rightarrow> ByteStream \<times> Session \<Rightarrow> pull_result" where
  \<comment> \<open>the first response once its body is read: emit it, then close unless live updates
      follow\<close>
  "after_first d p =
     (case p of (st, s) \<Rightarrow>
        (case enqueue_current d (st, s) of
           Inl e \<Rightarrow> (Some e, st, s)
         | Inr st' \<Rightarrow>
             if upToDate s \<and> \<not> shouldContinueLive s then close_and_return (st', s)
             else if shouldContinueLive s then (None, st', s)
             else close_and_return (st', s)))"

definition pull_first :: "PullInput \<Rightarrow> Response \<Rightarrow> ByteStream \<times> Session \<Rightarrow> pull_result" where
  "pull_first i response p =
     (case body response of
        Some rs \<Rightarrow>
          (case run_ops (interleaved i) p of (st, s) \<Rightarrow>
             (case read_all rs [] of
                Inl e \<Rightarrow> (Some e, st, s)
              | Inr chunks \<Rightarrow> after_first (concat chunks) (st, s)))
      | None \<Rightarrow> after_first [] p)"

definition start_iterator :: "PullInput \<Rightarrow> Session \<Rightarrow> thrown + Session" where
  \<comment> \<open>\<open>if (!self.#sseIterator) self.#sseIterator = self.#startSSE(offset, cursor, signal)\<close>\<close>
  "start_iterator i s =
     (case sseIterator s of
        Some it \<Rightarrow> Inr s
      | None \<Rightarrow>
          (case sse_start i of
             Inl e \<Rightarrow> Inl e
           | Inr r \<Rightarrow> Inr (s\<lparr>sseIterator := Some (SseIterator r 0)\<rparr>)))"

definition log_call :: "transport_call \<Rightarrow> Session \<Rightarrow> Session" where
  "log_call c s = s\<lparr>transport := transport s @ [c]\<rparr>"

definition after_emit :: "ByteStream \<times> Session \<Rightarrow> pull_result" where
  \<comment> \<open>after a continuation chunk: \<open>if (self.upToDate && !self.#shouldContinueLive()) { ... }\<close>\<close>
  "after_emit p =
     (case p of (st, s) \<Rightarrow>
        if upToDate s \<and> \<not> shouldContinueLive s then close_and_return (st, s)
        else (None, st, s))"

definition pull_sse :: "PullInput \<Rightarrow> ByteStream \<times> Session \<Rightarrow> pull_result" where
  "pull_sse i p =
     (case p of (st, s) \<Rightarrow>
        (case start_iterator i (if sseIterator s = None
                                then log_call (StartSSE (offset s) (cursor s)) s else s) of
           Inl e \<Rightarrow> (Some e, st, log_call (StartSSE (offset s) (cursor s)) s)
         | Inr s1 \<Rightarrow>
             (case run_ops (interleaved i) (st, s1) of
                (st2, s2) \<Rightarrow>
                  (case sse_next i of
                     IterThrows e \<Rightarrow> (Some e, st2, s2)
                   | IterDone \<Rightarrow> close_and_return (st2, s2)
                   | IterValue chunk \<Rightarrow>
                       (let s3 = s2\<lparr>offset := chunk_offset chunk, cursor := chunk_cursor chunk,
                                     upToDate := chunk_upToDate chunk\<rparr>
                        in case controller_enqueue chunk st2 of
                             Inl e \<Rightarrow> (Some e, st2, s3)
                           | Inr st3 \<Rightarrow> after_emit (st3, s3))))))"

definition pull_long_poll :: "PullInput \<Rightarrow> ByteStream \<times> Session \<Rightarrow> pull_result" where
  "pull_long_poll i p =
     (case p of (st, s) \<Rightarrow>
        if aborted s then close_and_return (st, s)
        else
          (case run_ops (interleaved i) (st, log_call (FetchNext (offset s) (cursor s)) s) of
             (st2, s2) \<Rightarrow>
               (case fetch_next i of
                  Inl e \<Rightarrow> (Some e, st2, s2)
                | Inr response \<Rightarrow>
                    (let s3 = updateStateFromResponse response s2
                     in case arrayBuffer response of
                          Inl e \<Rightarrow> (Some e, st2, s3)
                        | Inr d \<Rightarrow>
                            (case enqueue_current d (st2, s3) of
                               Inl e \<Rightarrow> (Some e, st2, s3)
                             | Inr st3 \<Rightarrow> after_emit (st3, s3))))))"

definition pull_try :: "PullInput \<Rightarrow> ByteStream \<times> Session \<Rightarrow> pull_result" where
  \<comment> \<open>the \<open>try\<close> block: what it throws, if it does, and the state it leaves\<close>
  "pull_try i p =
     (case p of (st, s) \<Rightarrow>
        (case (if firstResponseConsumed st then None else firstResponse s) of
           Some response \<Rightarrow>
             pull_first i response
               (st\<lparr>firstResponseConsumed := True\<rparr>, s\<lparr>firstResponse := None\<rparr>)
         | None \<Rightarrow>
             if shouldContinueLive s then
               (if live s = LiveSSE \<and> startSSE s then pull_sse i (st, s)
                else pull_long_poll i (st, s))
             else close_and_return (st, s)))"

definition pull_catch :: "thrown \<Rightarrow> ByteStream \<times> Session \<Rightarrow> ByteStream \<times> Session" where
  \<comment> \<open>the \<open>catch\<close> block; a \<open>controller.close()\<close> that throws there rejects the pull, which
      the stream answers with \<open>controller.error\<close>\<close>
  "pull_catch err p =
     (case p of (st, s) \<Rightarrow>
        if aborted s then
          (case controller_close st of
             Inl e \<Rightarrow> (controller_error e st, markClosed s)
           | Inr st' \<Rightarrow> (st', markClosed s))
        else (controller_error err st, markError (to_Error err) s))"

definition pull :: "PullInput \<Rightarrow> ByteStream \<times> Session \<Rightarrow> ByteStream \<times> Session" where
  "pull i p =
     (case pull_try i p of
        (None, st, s) \<Rightarrow> (st, s)
      | (Some err, st, s) \<Rightarrow> pull_catch err (st, s))"

section \<open>Consumption\<close>

subsection \<open>Reading from the byte stream\<close>

text \<open>
  \<open>reader.read()\<close>: a closed stream gives \<open>done\<close>, an errored one rejects, a queued chunk is
  handed over, and an empty queue makes the stream pull. Here the pull is made when the
  read asks for it. The platform starts it as soon as the queue is empty; for a method
  that reads until the stream ends, as the accumulating methods do, this changes when the
  transport is called, not what is read. (The loop of a subscription can end before its
  stream does, and the pulls of a subscription are modelled as the platform makes them.)
  Every pull either queues a chunk, closes or errors the stream; a read whose pull has no
  answer from the outside (the list of inputs is used up) never returns, which is \<open>None\<close>.
\<close>

datatype read_outcome = ReadValue ByteChunk | ReadDone | ReadRejected thrown

definition read_settled :: "ByteStream \<Rightarrow> (read_outcome \<times> ByteStream) option" where
  "read_settled st =
     (case stream_state st of
        StreamClosed \<Rightarrow> Some (ReadDone, st)
      | Errored e \<Rightarrow> Some (ReadRejected e, st)
      | Readable \<Rightarrow>
          (case queue st of
             [] \<Rightarrow> None
           | c # q \<Rightarrow>
               Some (ReadValue c,
                     st\<lparr>queue := q,
                        stream_state := (if closeRequested st \<and> q = [] then StreamClosed
                                         else Readable)\<rparr>)))"

definition read ::
  "PullInput list \<Rightarrow> ByteStream \<times> Session \<Rightarrow>
   (read_outcome \<times> ByteStream \<times> Session \<times> PullInput list) option" where
  "read ins p =
     (case p of (st, s) \<Rightarrow>
        (case read_settled st of
           Some (r, st') \<Rightarrow> Some (r, st', s, ins)
         | None \<Rightarrow>
             (case ins of
                [] \<Rightarrow> None
              | i # ins' \<Rightarrow>
                  (case pull i (st, s) of (st1, s1) \<Rightarrow>
                     (case read_settled st1 of
                        Some (r, st2) \<Rightarrow> Some (r, st2, s1, ins')
                      | None \<Rightarrow> None)))))"

subsection \<open>The accumulating method \<open>json()\<close>\<close>

definition decode_records ::
  "ByteChunk \<Rightarrow> TextDecoder \<Rightarrow> thrown + json list \<times> TextDecoder" where
  \<comment> \<open>\<open>if (data.length > 0) { const text = decoder.decode(data); ... #parseJsonChunk(text) }\<close>\<close>
  "decode_records chunk dec =
     (if data chunk \<noteq> [] then
        (case decode False (data chunk) dec of (t, dec') \<Rightarrow>
           (case parseJsonChunk t of
              Inl e \<Rightarrow> Inl e
            | Inr parsed \<Rightarrow> Inr (parsed, dec')))
      else Inr ([], dec))"

type_synonym json_result = "((thrown + json list) \<times> Session \<times> PullInput list) option"

partial_function (option) json_loop ::
  "read_outcome \<Rightarrow> json list \<Rightarrow> TextDecoder \<Rightarrow> ByteStream \<Rightarrow> Session \<Rightarrow> PullInput list \<Rightarrow>
   ((thrown + json list) \<times> Session \<times> PullInput list) option" where
  "json_loop result items dec st s ins =
     (case result of
        ReadDone \<Rightarrow> Some (Inr items, markClosed s, ins)
      | ReadRejected e \<Rightarrow> Some (Inl e, s, ins)
      | ReadValue chunk \<Rightarrow>
          (case decode_records chunk dec of
             Inl e \<Rightarrow> Some (Inl e, s, ins)
           | Inr (parsed, dec') \<Rightarrow>
               if chunk_upToDate chunk then Some (Inr (items @ parsed), markClosed s, ins)
               else
                 (case read ins (st, s) of
                    None \<Rightarrow> None
                  | Some (result', st', s', ins') \<Rightarrow>
                      json_loop result' (items @ parsed) dec' st' s' ins')))"

definition json :: "PullInput list \<Rightarrow> Session \<Rightarrow> json_result" where
  \<comment> \<open>the promise of \<open>json()\<close>: fulfilled with the records or rejected, the session it
      leaves and the inputs it has not used; \<open>None\<close> when it never settles\<close>
  "json ins s =
     (case ensureJsonMode s of
        Inl e \<Rightarrow> Some (Inl e, s, ins)
      | Inr u \<Rightarrow>
          (case createByteStream (s\<lparr>stopAfterUpToDate := True\<rparr>) of (st, s1) \<Rightarrow>
             (case read ins (st, s1) of
                None \<Rightarrow> None
              | Some (result, st2, s2, ins2) \<Rightarrow>
                  json_loop result [] new_TextDecoder st2 s2 ins2)))"

subsection \<open>The stream \<open>jsonStream()\<close>\<close>

text \<open>
  \<open>jsonStream()\<close> checks the mode, creates the byte stream and pipes it through a
  transform that turns each chunk into its records; the piping itself belongs to the
  platform and is not modelled.
\<close>

definition jsonStream :: "Session \<Rightarrow> (thrown + ByteStream) \<times> Session" where
  "jsonStream s =
     (case ensureJsonMode s of
        Inl e \<Rightarrow> (Inl e, s)
      | Inr u \<Rightarrow> (case createByteStream s of (st, s1) \<Rightarrow> (Inr st, s1)))"

subsection \<open>Push subscriptions\<close>

text \<open>
  A subscribe method creates the byte stream, starts a loop in the background and
  returns the unsubscribe function. The loop reads the stream and awaits the handler on
  every chunk; it is the only reader of its stream. The unsubscribe function aborts the
  subscription's own controller and then calls \<open>cancel()\<close>: two operations, one after
  the other.
\<close>

datatype sub_op = AbortSubscription | Other ext_op

definition unsubscribe :: "sub_op list" where
  \<comment> \<open>\<open>() => { abortController.abort(); this.cancel() }\<close>\<close>
  "unsubscribe = [AbortSubscription, Other Cancel]"

datatype loop_end = LoopReturned | LoopThrew thrown

datatype loop_status = AwaitingRead | InHandler | Ended loop_end

text \<open>
  A subscription: where its loop stands (suspended in \<open>reader.read()\<close>, suspended in the
  handler, or ended by returning or by throwing), the \<open>aborted\<close> flag of its own
  controller, its decoder, the payloads handed to the handler so far, its byte stream and
  the session.
\<close>

record ('d, 'p) Subscription =
  sub_loop :: loop_status
  sub_aborted :: bool
  sub_decoder :: 'd
  sub_delivered :: "'p list"
  sub_stream :: ByteStream
  sub_session :: Session

definition loop_catch :: "thrown \<Rightarrow> bool \<Rightarrow> loop_end" where
  \<comment> \<open>\<open>catch (e) { if (!abortController.signal.aborted) throw e }\<close>\<close>
  "loop_catch e unsubscribed = (if \<not> unsubscribed then LoopThrew e else LoopReturned)"

text \<open>
  The loop of the three subscribe methods, which differ only in what they make of a
  chunk (\<open>conv\<close>). With the result of a read the loop ends (the stream is done, the read
  is rejected, the subscription was aborted, or the conversion throws) or calls the
  handler.
\<close>

definition resume ::
  "(ByteChunk \<Rightarrow> 'd \<Rightarrow> (thrown + 'p) \<times> 'd) \<Rightarrow> read_outcome \<Rightarrow> ('d, 'p) Subscription \<Rightarrow>
   ('d, 'p) Subscription" where
  "resume conv r sub =
     (case r of
        ReadDone \<Rightarrow> sub\<lparr>sub_loop := Ended LoopReturned\<rparr>
      | ReadRejected e \<Rightarrow> sub\<lparr>sub_loop := Ended (loop_catch e (sub_aborted sub))\<rparr>
      | ReadValue chunk \<Rightarrow>
          if sub_aborted sub then sub\<lparr>sub_loop := Ended LoopReturned\<rparr>
          else
            (case conv chunk (sub_decoder sub) of
               (Inl e, dec') \<Rightarrow> sub\<lparr>sub_loop := Ended (loop_catch e (sub_aborted sub))\<rparr>
             | (Inr p, dec') \<Rightarrow>
                 sub\<lparr>sub_loop := InHandler, sub_decoder := dec',
                     sub_delivered := sub_delivered sub @ [p]\<rparr>))"

definition loop_read ::
  "(ByteChunk \<Rightarrow> 'd \<Rightarrow> (thrown + 'p) \<times> 'd) \<Rightarrow> ('d, 'p) Subscription \<Rightarrow> ('d, 'p) Subscription" where
  \<comment> \<open>\<open>result = await reader.read()\<close>: the loop goes on at once when the stream can
      answer, and waits otherwise\<close>
  "loop_read conv sub =
     (case read_settled (sub_stream sub) of
        None \<Rightarrow> sub\<lparr>sub_loop := AwaitingRead\<rparr>
      | Some (r, st') \<Rightarrow> resume conv r (sub\<lparr>sub_stream := st'\<rparr>))"

definition settle_read ::
  "(ByteChunk \<Rightarrow> 'd \<Rightarrow> (thrown + 'p) \<times> 'd) \<Rightarrow> ('d, 'p) Subscription \<Rightarrow> ('d, 'p) Subscription" where
  \<comment> \<open>a read that is waiting is answered as soon as the stream can\<close>
  "settle_read conv sub = (if sub_loop sub = AwaitingRead then loop_read conv sub else sub)"

text \<open>
  The stream is built with the default queuing strategy (high-water mark 1), so it calls
  \<open>pull\<close> whenever it accepts chunks and its queue is empty, whether or not a read is
  waiting: once when it starts, and again as soon as a chunk has been handed to the
  reader. While the handler runs, the next pull is therefore already in flight, and it
  completes whether or not the loop is still there.
\<close>

definition should_pull :: "ByteStream \<Rightarrow> bool" where
  "should_pull st \<longleftrightarrow> stream_state st = Readable \<and> \<not> closeRequested st \<and> queue st = []"

text \<open>
  What happens to a subscription, in the order in which it happens: another task
  performs an operation, the pull in flight settles (with the answers of the transport
  and the operations that other tasks performed during it), or the handler settles by
  returning (\<open>None\<close>) or by throwing. A pull settles only when the stream has one in flight
  and a handler only when the loop is in it; the event does nothing otherwise. An
  operation that precedes the settling of a pull as an event of its own is seen by that
  pull from its start, as when the handler cancels the session before it first suspends;
  one that falls within the pull is among the interleaved operations of its input.
\<close>

datatype event = Outside sub_op | PullSettles PullInput | HandlerSettles "thrown option"

fun sub_event ::
  "(ByteChunk \<Rightarrow> 'd \<Rightarrow> (thrown + 'p) \<times> 'd) \<Rightarrow> event \<Rightarrow> ('d, 'p) Subscription \<Rightarrow>
   ('d, 'p) Subscription" where
  "sub_event conv (Outside AbortSubscription) sub = sub\<lparr>sub_aborted := True\<rparr>"
| "sub_event conv (Outside (Other op)) sub =
     (case ext_step op (sub_stream sub, sub_session sub) of
        (st, s) \<Rightarrow> settle_read conv (sub\<lparr>sub_stream := st, sub_session := s\<rparr>))"
| "sub_event conv (PullSettles i) sub =
     (if should_pull (sub_stream sub) then
        (case pull i (sub_stream sub, sub_session sub) of
           (st, s) \<Rightarrow> settle_read conv (sub\<lparr>sub_stream := st, sub_session := s\<rparr>))
      else sub)"
| "sub_event conv (HandlerSettles res) sub =
     (if sub_loop sub = InHandler then
        (case res of
           None \<Rightarrow> loop_read conv sub
         | Some e \<Rightarrow> sub\<lparr>sub_loop := Ended (loop_catch e (sub_aborted sub))\<rparr>)
      else sub)"

definition start_subscription :: "'d \<Rightarrow> Session \<Rightarrow> ('d, 'p) Subscription" where
  \<comment> \<open>the byte stream is created at the call and the loop runs up to its first read, which
      waits for the first pull\<close>
  "start_subscription dec s =
     (case createByteStream s of
        (st, s1) \<Rightarrow>
          \<lparr>sub_loop = AwaitingRead, sub_aborted = False, sub_decoder = dec,
           sub_delivered = [], sub_stream = st, sub_session = s1\<rparr>)"

definition run_subscription ::
  "(ByteChunk \<Rightarrow> 'd \<Rightarrow> (thrown + 'p) \<times> 'd) \<Rightarrow> 'd \<Rightarrow> event list \<Rightarrow> Session \<Rightarrow>
   ('d, 'p) Subscription" where
  "run_subscription conv dec evs s = fold (sub_event conv) evs (start_subscription dec s)"

datatype JsonBatch =
  JsonBatch (batch_items: "json list") (batch_offset: string) (batch_cursor: "string option")
    (batch_upToDate: bool)

datatype TextChunk =
  TextChunk (text_of: jstring) (text_offset: string) (text_cursor: "string option")
    (text_upToDate: bool)

definition json_batch :: "ByteChunk \<Rightarrow> TextDecoder \<Rightarrow> (thrown + JsonBatch) \<times> TextDecoder" where
  "json_batch chunk dec =
     (case decode_records chunk dec of
        Inl e \<Rightarrow> (Inl e, dec)
      | Inr (parsed, dec') \<Rightarrow>
          (Inr (JsonBatch parsed (chunk_offset chunk) (chunk_cursor chunk) (chunk_upToDate chunk)),
           dec'))"

definition bytes_chunk :: "ByteChunk \<Rightarrow> unit \<Rightarrow> (thrown + ByteChunk) \<times> unit" where
  "bytes_chunk chunk u = (Inr chunk, u)"

definition text_chunk :: "ByteChunk \<Rightarrow> TextDecoder \<Rightarrow> (thrown + TextChunk) \<times> TextDecoder" where
  \<comment> \<open>\<open>decoder.decode(chunk.data, { stream: true })\<close>\<close>
  "text_chunk chunk dec =
     (case decode True (data chunk) dec of (t, dec') \<Rightarrow>
        (Inr (TextChunk t (chunk_offset chunk) (chunk_cursor chunk) (chunk_upToDate chunk)),
         dec'))"

text \<open>
  The three methods, as the subscription they have made of the session after the given
  events; \<open>subscribeJson\<close> throws at the call when the session is not in JSON mode.
\<close>

definition subscribeJson ::
  "event list \<Rightarrow> Session \<Rightarrow> thrown \<times> Session + (TextDecoder, JsonBatch) Subscription" where
  "subscribeJson evs s =
     (case ensureJsonMode s of
        Inl e \<Rightarrow> Inl (e, s)
      | Inr u \<Rightarrow> Inr (run_subscription json_batch new_TextDecoder evs s))"

definition subscribeBytes :: "event list \<Rightarrow> Session \<Rightarrow> (unit, ByteChunk) Subscription" where
  "subscribeBytes evs s = run_subscription bytes_chunk () evs s"

definition subscribeText :: "event list \<Rightarrow> Session \<Rightarrow> (TextDecoder, TextChunk) Subscription" where
  "subscribeText evs s = run_subscription text_chunk new_TextDecoder evs s"

section \<open>Notions used in the statements\<close>

subsection \<open>Lines and values\<close>

fun join_newline :: "jstring list \<Rightarrow> jstring" where
  "join_newline [] = []"
| "join_newline [l] = l"
| "join_newline (l # l' # ls) = l @ 0x0A # join_newline (l' # ls)"

definition value_start :: "nat \<Rightarrow> bool" where
  \<comment> \<open>the characters a JSON value can start with\<close>
  "value_start c \<longleftrightarrow>
     c = 0x5B \<or> c = 0x7B \<or> c = 0x22 \<or> c = 0x2D \<or> is_digit c \<or>
     c = 0x74 \<or> c = 0x66 \<or> c = 0x6E"

subsection \<open>Histories of a session\<close>

text \<open>
  The calls that close a session: \<open>#markClosed()\<close>, \<open>#markError(err)\<close> and \<open>cancel()\<close>.
\<close>

datatype close_op = MarkClosed | MarkError thrown | CancelSession

fun close_step :: "close_op \<Rightarrow> Session \<Rightarrow> Session" where
  "close_step MarkClosed s = markClosed s"
| "close_step (MarkError err) s = markError err s"
| "close_step CancelSession s = cancel s"

fun settle_of :: "close_op \<Rightarrow> settle" where
  "settle_of MarkClosed = Resolve"
| "settle_of (MarkError err) = Reject err"
| "settle_of CancelSession = Resolve"

text \<open>
  A history of a session and the streams it has created: an accumulating method sets the
  stop flag, every consumption method creates a byte stream, a stream is pulled or
  cancelled (streams are numbered in the order of their creation; a number that names no
  stream does nothing), the session is cancelled or its controller aborted, and an
  accumulating method ends with \<open>#markClosed()\<close>.
\<close>

datatype session_op =
    SetStopAfterUpToDate
  | CreateByteStream
  | Pull nat PullInput
  | CancelStream nat
  | CancelCall
  | AbortSignal
  | EndAccumulating

fun session_step :: "session_op \<Rightarrow> Session \<times> ByteStream list \<Rightarrow> Session \<times> ByteStream list" where
  "session_step SetStopAfterUpToDate (s, sts) = (s\<lparr>stopAfterUpToDate := True\<rparr>, sts)"
| "session_step CreateByteStream (s, sts) =
     (case createByteStream s of (st, s') \<Rightarrow> (s', sts @ [st]))"
| "session_step (Pull k i) (s, sts) =
     (if k < length sts
      then (case pull i (sts ! k, s) of (st', s') \<Rightarrow> (s', sts[k := st']))
      else (s, sts))"
| "session_step (CancelStream k) (s, sts) =
     (if k < length sts
      then (case stream_cancel (sts ! k, s) of (st', s') \<Rightarrow> (s', sts[k := st']))
      else (s, sts))"
| "session_step CancelCall (s, sts) = (cancel s, sts)"
| "session_step AbortSignal (s, sts) = (s\<lparr>aborted := True\<rparr>, sts)"
| "session_step EndAccumulating (s, sts) = (markClosed s, sts)"

definition history :: "StreamResponseConfig \<Rightarrow> session_op list \<Rightarrow> Session \<times> ByteStream list" where
  "history config ops = fold session_step ops (new_StreamResponse config, [])"

subsection \<open>Invariants\<close>

definition settled_once :: "Session \<Rightarrow> bool" where
  \<comment> \<open>the promise has been settled by exactly one call when the session is closed, and by
      none before\<close>
  "settled_once s \<longleftrightarrow>
     (if state s = Closed then length (closedCalls s) = 1 else closedCalls s = [])"

definition clean_step :: "Session \<Rightarrow> Session \<Rightarrow> bool" where
  \<comment> \<open>from the first session to the second the lifecycle is unchanged, or the session
      was closed by one resolving call\<close>
  "clean_step s s' \<longleftrightarrow>
     (state s' = state s \<and> closedCalls s' = closedCalls s) \<or>
     (state s \<noteq> Closed \<and> state s' = Closed \<and> closedCalls s' = closedCalls s @ [Resolve])"

definition becomes_consuming :: "StreamResponseConfig \<Rightarrow> session_op list \<Rightarrow> nat \<Rightarrow> bool" where
  \<comment> \<open>step \<open>k\<close> of a history takes the session from \<open>Ready\<close> to \<open>Consuming\<close>\<close>
  "becomes_consuming config ops k \<longleftrightarrow>
     k < length ops \<and>
     state (fst (history config (take k ops))) = Ready \<and>
     state (fst (history config (take (Suc k) ops))) = Consuming"

definition position :: "Session \<Rightarrow> string \<times> string option \<times> bool" where
  \<comment> \<open>the Resumption Position\<close>
  "position s = (offset s, cursor s, upToDate s)"

definition writable_or_cancelled :: "ByteStream \<Rightarrow> Session \<Rightarrow> bool" where
  \<comment> \<open>the stream of a pull in progress: it accepted chunks when the pull began, and can
      only have been cancelled since, which aborts the session's signal\<close>
  "writable_or_cancelled st s \<longleftrightarrow>
     \<not> closeRequested st \<and>
     (stream_state st = Readable \<or> (stream_state st = StreamClosed \<and> aborted s))"

subsection \<open>Subscriptions and the mode error\<close>

fun producer_step :: "event \<Rightarrow> ByteStream \<times> Session \<Rightarrow> ByteStream \<times> Session" where
  \<comment> \<open>what an event does to the stream and the session of a subscription whose loop has
      ended: other tasks act on the session and the stream completes the pull it has in
      flight\<close>
  "producer_step (Outside AbortSubscription) p = p"
| "producer_step (Outside (Other op)) p = ext_step op p"
| "producer_step (PullSettles i) p = (if should_pull (fst p) then pull i p else p)"
| "producer_step (HandlerSettles res) p = p"

fun pull_event :: "event \<Rightarrow> bool" where
  "pull_event (PullSettles i) = True"
| "pull_event ev = False"

fun closing_event :: "event \<Rightarrow> bool" where
  \<comment> \<open>the events that can close a session: a pull that settles, \<open>cancel()\<close> (which the
      unsubscribe function calls) and the cancellation of the stream\<close>
  "closing_event (PullSettles i) = True"
| "closing_event (Outside (Other Cancel)) = True"
| "closing_event (Outside (Other StreamCancel)) = True"
| "closing_event ev = False"

definition invalid_mode_error :: "Session \<Rightarrow> thrown" where
  \<comment> \<open>the error of \<open>#ensureJsonMode\<close>, written out\<close>
  \<open>invalid_mode_error s =
     DurableStreamError
       (''JSON methods are only valid for JSON-mode streams. Content-Type is "'' @
        show_contentType (contentType s) @ ''" and json hint was not set.'')
       ''BAD_REQUEST''\<close>

subsection \<open>A sample session\<close>

definition example_response :: Response where
  "example_response = \<lparr>headers = (\<lambda>h. None), body = Some [Chunk (utf8 ''[1,'' ), Chunk (utf8 ''2]'')]\<rparr>"

definition example_config :: StreamResponseConfig where
  "example_config =
     \<lparr>config_url = ''https://example.test/stream'',
      config_contentType = Some ''application/json'',
      config_live = LiveLongPoll,
      config_startOffset = ''-1'',
      config_isJsonMode = True,
      config_initialOffset = ''5'',
      config_initialCursor = Some ''c1'',
      config_initialUpToDate = True,
      config_firstResponse = example_response,
      config_aborted = False,
      config_startSSE = False\<rparr>"

definition example_continuation :: Response where
  \<comment> \<open>a continuation response that carries none of the three headers\<close>
  "example_continuation = \<lparr>headers = (\<lambda>h. None), body = Some [Chunk (utf8 ''[3]'')]\<rparr>"

definition example_input :: PullInput where
  "example_input =
     \<lparr>interleaved = [], sse_start = Inr True, sse_next = IterDone,
      fetch_next = Inr example_continuation\<rparr>"

definition replay_config :: StreamResponseConfig where
  \<comment> \<open>the same session without live updates\<close>
  "replay_config = example_config\<lparr>config_live := LiveOff\<rparr>"

definition failing_input :: PullInput where
  \<comment> \<open>a pull whose \<open>fetchNext\<close> rejects\<close>
  "failing_input = example_input\<lparr>fetch_next := Inl (ErrorObject ''network'')\<rparr>"

section \<open>Properties\<close>

subsection \<open>The record decoder\<close>

lemmas json_eval =
  JSON_parse_def str_def skip_ws_def is_json_ws_def is_digit_def push_char_def
  parse_number_def parse_int_part_def parse_frac_part_def parse_exp_part_def decimal_def
  digits_value_def define_property_def parse_literal_def

lemmas chunk_eval = parseJsonChunk_def truthy_def trim_def is_js_space_def json_eval

lemma parse_value_Nil: "parse_value n [] = None"
  by (cases n) simp_all

lemma parse_literal_start:
  "c \<noteq> 0x74 \<Longrightarrow> c \<noteq> 0x66 \<Longrightarrow> c \<noteq> 0x6E \<Longrightarrow> parse_literal (c # cs) = None"
  by (simp add: parse_literal_def str_def)

lemma parse_value_start: "\<not> value_start c \<Longrightarrow> parse_value n (c # cs) = None"
  by (cases n) (simp_all add: value_start_def parse_literal_start)

lemma js_space_range: "is_js_space c \<Longrightarrow> c \<le> 0x20 \<or> 0xA0 \<le> c"
  unfolding is_js_space_def by arith

lemma value_start_range: "value_start c \<Longrightarrow> 0x22 \<le> c \<and> c \<le> 0x7B"
  unfolding value_start_def is_digit_def by arith

lemma parse_value_space: "is_js_space c \<Longrightarrow> parse_value n (c # cs) = None"
  using js_space_range[of c] value_start_range[of c] by (intro parse_value_start) auto

lemma JSON_parse_blank:
  assumes "\<forall>c\<in>set t. is_js_space c"
  shows "JSON_parse t = None"
proof -
  have "set (skip_ws t) \<subseteq> set t"
    unfolding skip_ws_def by (rule set_dropWhileD[THEN subsetI])
  with assms have "\<forall>c\<in>set (skip_ws t). is_js_space c" by blast
  then have "parse_value n (skip_ws t) = None" for n
    by (cases "skip_ws t") (simp_all add: parse_value_Nil parse_value_space)
  then show ?thesis by (simp add: JSON_parse_def)
qed

text \<open>
  The parser always consumes input, and the bound on nested calls that \<open>JSON_parse\<close>
  starts with is never reached: any larger bound gives the same result.
\<close>

lemma push_char_rest: "push_char c x = Some (s, r) \<Longrightarrow> \<exists>s'. x = Some (s', r)"
  by (cases x) (auto simp: push_char_def)

lemma parse_chars_shorter: "parse_chars cs = Some (s, r) \<Longrightarrow> length r < length cs"
proof (induction cs arbitrary: s r rule: length_induct)
  case (1 xs)
  note ih = "1.IH"[rule_format]
  show ?case
  proof (cases xs)
    case Nil
    with 1(2) show ?thesis by simp
  next
    case (Cons c cs)
    show ?thesis
    proof (cases "c = 0x22")
      case True
      with Cons 1(2) show ?thesis by simp
    next
      case q: False
      show ?thesis
      proof (cases "c = 0x5C")
        case False
        with q Cons 1(2) have p: "push_char c (parse_chars cs) = Some (s, r)"
          by (auto split: if_splits)
        from push_char_rest[OF p] obtain s' where "parse_chars cs = Some (s', r)" by blast
        from ih[OF _ this] Cons show ?thesis by simp
      next
        case b: True
        show ?thesis
        proof (cases cs)
          case Nil
          with q b Cons 1(2) show ?thesis by simp
        next
          case c2: (Cons e r0)
          show ?thesis
          proof (cases "e = 0x75")
            case False
            with q b Cons c2 1(2) obtain u where
              p: "push_char u (parse_chars r0) = Some (s, r)"
              by (auto split: option.splits)
            from push_char_rest[OF p] obtain s' where "parse_chars r0 = Some (s', r)" by blast
            from ih[OF _ this] Cons c2 show ?thesis by simp
          next
            case u: True
            with q b Cons c2 1(2) obtain h3 h2 h1 h0 r' v where r0: "r0 = h3 # h2 # h1 # h0 # r'"
              and p: "push_char v (parse_chars r') = Some (s, r)"
              by (auto split: list.splits option.splits)
            from push_char_rest[OF p] obtain s' where "parse_chars r' = Some (s', r)" by blast
            from ih[OF _ this] Cons c2 r0 show ?thesis by simp
          qed
        qed
      qed
    qed
  qed
qed

lemma dropWhile_shorter: "length (dropWhile P xs) \<le> length xs"
  by (induction xs) auto

lemma skip_ws_le: "length (skip_ws cs) \<le> length cs"
  by (simp add: skip_ws_def dropWhile_shorter)

lemma skip_ws_Cons: "skip_ws cs = d # r \<Longrightarrow> length r < length cs"
  using skip_ws_le[of cs] by simp

lemma parse_literal_shorter: "parse_literal cs = Some (v, r) \<Longrightarrow> length r < length cs"
  by (cases cs) (auto simp: parse_literal_def str_def split: if_splits)

lemma parse_number_shorter: "parse_number cs = Some (v, r) \<Longrightarrow> length r < length cs"
proof -
  assume a: "parse_number cs = Some (v, r)"
  let ?neg = "case cs of [] \<Rightarrow> False | c # _ \<Rightarrow> c = 0x2D"
  let ?cs1 = "if ?neg then tl cs else cs"
  have l1: "length ?cs1 \<le> length cs" by simp
  from a obtain ids cs2 fds cs3 e where
    i: "parse_int_part ?cs1 = Some (ids, cs2)" and
    f: "parse_frac_part cs2 = Some (fds, cs3)" and
    x: "parse_exp_part cs3 = Some (e, r)"
    by (auto simp: parse_number_def Let_def split: option.splits)
  from i have "length cs2 < length ?cs1"
    by (cases ?cs1) (auto simp: parse_int_part_def dropWhile_shorter le_imp_less_Suc split: if_splits)
  moreover from f have "length cs3 \<le> length cs2"
    by (cases cs2) (auto simp: parse_frac_part_def dropWhile_shorter le_SucI split: if_splits)
  moreover from x have "length r \<le> length cs3"
  proof (cases cs3)
    case Nil
    with x show ?thesis by (simp add: parse_exp_part_def)
  next
    case (Cons c t)
    show ?thesis
    proof (cases "c = 0x65 \<or> c = 0x45")
      case False
      with x Cons show ?thesis by (auto simp: parse_exp_part_def)
    next
      case True
      let ?r' = "case t of [] \<Rightarrow> t | s # t' \<Rightarrow> if s = 0x2B \<or> s = 0x2D then t' else t"
      have "length ?r' \<le> length t" by (cases t) auto
      moreover from x Cons True have "r = dropWhile is_digit ?r'"
        by (auto simp: parse_exp_part_def Let_def split: if_splits)
      ultimately show ?thesis using Cons dropWhile_shorter[of is_digit ?r'] by simp
    qed
  qed
  ultimately show ?thesis using l1 by linarith
qed

lemma parse_shorter:
  "(\<forall>cs v r. parse_value n cs = Some (v, r) \<longrightarrow> length r < length cs) \<and>
   (\<forall>cs vs r. parse_elements n cs = Some (vs, r) \<longrightarrow> length r < length cs) \<and>
   (\<forall>cs ms r. parse_members n cs = Some (ms, r) \<longrightarrow> length r < length cs)"
proof (induction n)
  case 0
  show ?case by simp
next
  case (Suc n)
  then have iv: "\<And>cs v r. parse_value n cs = Some (v, r) \<Longrightarrow> length r < length cs"
    and ie: "\<And>cs vs r. parse_elements n cs = Some (vs, r) \<Longrightarrow> length r < length cs"
    and im: "\<And>cs ms r. parse_members n cs = Some (ms, r) \<Longrightarrow> length r < length cs"
    by blast+
  have v: "length r < length cs" if a: "parse_value (Suc n) cs = Some (v, r)" for cs v r
  proof (cases cs)
    case Nil
    with a show ?thesis by simp
  next
    case (Cons c t)
    show ?thesis
    proof (cases "c = 0x5B")
      case True
      with a Cons obtain d r0 where sk: "skip_ws t = d # r0"
        by (cases "skip_ws t") auto
      show ?thesis
      proof (cases "d = 0x5D")
        case d: True
        with a Cons True sk have "r = r0" by simp
        with skip_ws_Cons[OF sk] Cons show ?thesis by simp
      next
        case False
        with a Cons True sk obtain vs where "parse_elements n (d # r0) = Some (vs, r)"
          by (auto split: option.splits)
        from ie[OF this] skip_ws_le[of t] sk Cons show ?thesis by simp
      qed
    next
      case nb: False
      show ?thesis
      proof (cases "c = 0x7B")
        case True
        with a Cons nb obtain d r0 where sk: "skip_ws t = d # r0"
          by (cases "skip_ws t") auto
        show ?thesis
        proof (cases "d = 0x7D")
          case d: True
          with a Cons True nb sk have "r = r0" by simp
          with skip_ws_Cons[OF sk] Cons show ?thesis by simp
        next
          case False
          with a Cons True nb sk obtain ms where "parse_members n (d # r0) = Some (ms, r)"
            by (auto split: option.splits)
          from im[OF this] skip_ws_le[of t] sk Cons show ?thesis by simp
        qed
      next
        case no: False
        show ?thesis
        proof (cases "c = 0x22")
          case True
          with a Cons nb no obtain s where "parse_chars t = Some (s, r)"
            by (auto split: option.splits)
          from parse_chars_shorter[OF this] Cons show ?thesis by simp
        next
          case ns: False
          show ?thesis
          proof (cases "c = 0x2D \<or> is_digit c")
            case True
            with a Cons nb no ns have "parse_number cs = Some (v, r)" by auto
            then show ?thesis by (rule parse_number_shorter)
          next
            case False
            with a Cons nb no ns have "parse_literal cs = Some (v, r)" by auto
            then show ?thesis by (rule parse_literal_shorter)
          qed
        qed
      qed
    qed
  qed
  have e: "length r < length cs" if a: "parse_elements (Suc n) cs = Some (vs, r)" for cs vs r
  proof -
    from a obtain v r1 where pv: "parse_value n cs = Some (v, r1)"
      by (auto split: option.splits)
    from iv[OF pv] have l1: "length r1 < length cs" .
    from a pv obtain d r2 where sk: "skip_ws r1 = d # r2"
      by (cases "skip_ws r1") auto
    from skip_ws_Cons[OF sk] have l2: "length r2 < length r1" .
    show ?thesis
    proof (cases "d = 0x2C")
      case True
      with a pv sk obtain vs' where "parse_elements n (skip_ws r2) = Some (vs', r)"
        by (auto split: option.splits)
      from ie[OF this] skip_ws_le[of r2] l1 l2 show ?thesis by simp
    next
      case False
      with a pv sk have "r = r2" by (auto split: if_splits)
      with l1 l2 show ?thesis by simp
    qed
  qed
  have m: "length r < length cs" if a: "parse_members (Suc n) cs = Some (ms, r)" for cs ms r
  proof -
    from a obtain q t where cs: "cs = q # t" "q = 0x22"
      by (cases cs) (auto split: if_splits)
    from a cs obtain k r1 where pc: "parse_chars t = Some (k, r1)"
      by (auto split: option.splits)
    from parse_chars_shorter[OF pc] have l1: "length r1 < length t" .
    from a cs pc obtain col r2 where sk: "skip_ws r1 = col # r2" "col = 0x3A"
      by (cases "skip_ws r1") (auto split: if_splits)
    from skip_ws_Cons[OF sk(1)] have l2: "length r2 < length r1" .
    from a cs pc sk obtain v r3 where pv: "parse_value n (skip_ws r2) = Some (v, r3)"
      by (auto split: option.splits)
    from iv[OF pv] skip_ws_le[of r2] have l3: "length r3 < length r2" by simp
    from a cs pc sk pv obtain d r4 where sk2: "skip_ws r3 = d # r4"
      by (cases "skip_ws r3") auto
    from skip_ws_Cons[OF sk2] have l4: "length r4 < length r3" .
    show ?thesis
    proof (cases "d = 0x2C")
      case True
      with a cs pc sk pv sk2 obtain ms' where "parse_members n (skip_ws r4) = Some (ms', r)"
        by (auto split: option.splits)
      from im[OF this] skip_ws_le[of r4] l1 l2 l3 l4 cs show ?thesis by simp
    next
      case False
      with a cs pc sk pv sk2 have "r = r4" by (auto split: if_splits)
      with l1 l2 l3 l4 cs show ?thesis by simp
    qed
  qed
  from v e m show ?case by blast
qed

lemmas parse_value_shorter = parse_shorter[THEN conjunct1, rule_format]

lemma fuel_step:
  "(\<forall>cs. 2 * length cs < n \<longrightarrow> parse_value (Suc n) cs = parse_value n cs) \<and>
   (\<forall>cs. 2 * length cs + 1 < n \<longrightarrow> parse_elements (Suc n) cs = parse_elements n cs) \<and>
   (\<forall>cs. 2 * length cs + 1 < n \<longrightarrow> parse_members (Suc n) cs = parse_members n cs)"
proof (induction n)
  case 0
  show ?case by simp
next
  case (Suc n)
  then have iv: "\<And>cs. 2 * length cs < n \<Longrightarrow> parse_value (Suc n) cs = parse_value n cs"
    and ie: "\<And>cs. 2 * length cs + 1 < n \<Longrightarrow> parse_elements (Suc n) cs = parse_elements n cs"
    and im: "\<And>cs. 2 * length cs + 1 < n \<Longrightarrow> parse_members (Suc n) cs = parse_members n cs"
    by blast+
  have v: "parse_value (Suc (Suc n)) cs = parse_value (Suc n) cs" if b: "2 * length cs < Suc n" for cs
  proof (cases cs)
    case Nil
    then show ?thesis by simp
  next
    case (Cons c t)
    have "2 * length x + 1 < n" if "skip_ws t = x" for x
      using that skip_ws_le[of t] b Cons by auto
    then have "parse_elements (Suc n) x = parse_elements n x"
      and "parse_members (Suc n) x = parse_members n x" if "skip_ws t = x" for x
      using that ie im by blast+
    then show ?thesis
      unfolding Cons parse_value.simps(3)[of "Suc n"] parse_value.simps(3)[of n]
      by (auto split: list.splits)
  qed
  have e: "parse_elements (Suc (Suc n)) cs = parse_elements (Suc n) cs"
    if b: "2 * length cs + 1 < Suc n" for cs
  proof -
    from b have pv: "parse_value (Suc n) cs = parse_value n cs" by (intro iv) simp
    have "parse_elements (Suc n) (skip_ws r') = parse_elements n (skip_ws r')"
      if "parse_value n cs = Some (v, r)" "skip_ws r = d # r'" for v r d r'
    proof -
      from parse_value_shorter[OF that(1)] skip_ws_Cons[OF that(2)] skip_ws_le[of r'] b
      have "2 * length (skip_ws r') + 1 < n" by simp
      then show ?thesis by (rule ie)
    qed
    then show ?thesis
      unfolding parse_elements.simps(2)[of "Suc n"] parse_elements.simps(2)[of n] pv
      by (auto split: option.splits list.splits)
  qed
  have m: "parse_members (Suc (Suc n)) cs = parse_members (Suc n) cs"
    if b: "2 * length cs + 1 < Suc n" for cs
  proof (cases cs)
    case Nil
    then show ?thesis by simp
  next
    case (Cons q t)
    have pv: "parse_value (Suc n) (skip_ws r2) = parse_value n (skip_ws r2)"
      if "parse_chars t = Some (k, r1)" "skip_ws r1 = col # r2" for k r1 col r2
    proof -
      from parse_chars_shorter[OF that(1)] skip_ws_Cons[OF that(2)] skip_ws_le[of r2] b Cons
      have "2 * length (skip_ws r2) < n" by simp
      then show ?thesis by (rule iv)
    qed
    have pm: "parse_members (Suc n) (skip_ws r4) = parse_members n (skip_ws r4)"
      if "parse_chars t = Some (k, r1)" "skip_ws r1 = col # r2"
        "parse_value n (skip_ws r2) = Some (v, r3)" "skip_ws r3 = d # r4" for k r1 col r2 v r3 d r4
    proof -
      from parse_chars_shorter[OF that(1)] skip_ws_Cons[OF that(2)] skip_ws_le[of r2]
        parse_value_shorter[OF that(3)] skip_ws_Cons[OF that(4)] skip_ws_le[of r4] b Cons
      have "2 * length (skip_ws r4) + 1 < n" by simp
      then show ?thesis by (rule im)
    qed
    show ?thesis
      unfolding Cons parse_members.simps(2)[of "Suc n"] parse_members.simps(2)[of n]
      using pv pm
      by (auto split: option.splits list.splits)
  qed
  from v e m show ?case by blast
qed

lemma parse_value_fuel:
  "2 * length cs < n \<Longrightarrow> parse_value (n + k) cs = parse_value n cs"
proof (induction k)
  case 0
  show ?case by simp
next
  case (Suc k)
  from Suc.prems have "2 * length cs < n + k" by simp
  with fuel_step[of "n + k"] have "parse_value (Suc (n + k)) cs = parse_value (n + k) cs"
    by blast
  with Suc show ?case by simp
qed

lemma JSON_parse_fuel:
  assumes "2 * length t < n"
  shows "JSON_parse t =
     (case parse_value n (skip_ws t) of
        None \<Rightarrow> None
      | Some (v, r) \<Rightarrow> if skip_ws r = [] then Some v else None)"
proof -
  let ?m = "Suc (2 * length (skip_ws t))"
  have a: "2 * length (skip_ws t) < ?m" by simp
  have "?m \<le> n" using assms skip_ws_le[of t] by simp
  then obtain k where n: "n = ?m + k" using le_Suc_ex by blast
  have "?m \<le> Suc (Suc (length t + length t))" using skip_ws_le[of t] by simp
  then obtain j where d: "Suc (Suc (length t + length t)) = ?m + j" using le_Suc_ex by blast
  have "parse_value n (skip_ws t) = parse_value (Suc (Suc (length t + length t))) (skip_ws t)"
    unfolding n d using parse_value_fuel[OF a] by simp
  then show ?thesis by (simp add: JSON_parse_def)
qed

lemma split_newline_not_Nil: "split_newline t \<noteq> []"
  by (induction t) (auto split: list.splits)

lemma split_newline_sub: "l \<in> set (split_newline t) \<Longrightarrow> set l \<subseteq> set t"
proof (induction t arbitrary: l)
  case Nil
  then show ?case by simp
next
  case (Cons c cs)
  show ?case
  proof (cases "c = 0x0A")
    case True
    with Cons show ?thesis by fastforce
  next
    case False
    obtain l0 ls where s: "split_newline cs = l0 # ls"
      using split_newline_not_Nil[of cs] by (cases "split_newline cs") auto
    with False Cons.prems have "l = c # l0 \<or> l \<in> set ls" by simp
    with s Cons.IH[of l0] Cons.IH[of l] show ?thesis by auto
  qed
qed

lemma exists_dropWhile: "(\<exists>x\<in>set (dropWhile P l). \<not> P x) \<longleftrightarrow> (\<exists>x\<in>set l. \<not> P x)"
  by (induction l) auto

lemma trim_blank_iff: "truthy (trim l) \<longleftrightarrow> (\<exists>c\<in>set l. \<not> is_js_space c)"
proof -
  have "truthy (trim l) \<longleftrightarrow> (\<exists>x\<in>set (rev (dropWhile is_js_space l)). \<not> is_js_space x)"
    by (simp add: truthy_def trim_def dropWhile_eq_Nil_conv del: set_rev)
  also have "\<dots> \<longleftrightarrow> (\<exists>c\<in>set l. \<not> is_js_space c)"
    by (simp add: exists_dropWhile)
  finally show ?thesis .
qed

text \<open>Splitting on newlines loses nothing: the lines hold no newline and join back to the text.\<close>

lemma join_split_newline: "join_newline (split_newline t) = t"
proof (induction t)
  case Nil
  show ?case by simp
next
  case (Cons c cs)
  obtain l0 ls where s: "split_newline cs = l0 # ls"
    using split_newline_not_Nil[of cs] by (cases "split_newline cs") auto
  with Cons show ?case by (cases ls) auto
qed

lemma split_newline_no_newline: "l \<in> set (split_newline t) \<Longrightarrow> 0x0A \<notin> set l"
proof (induction t arbitrary: l)
  case Nil
  then show ?case by simp
next
  case (Cons c cs)
  obtain l0 ls where s: "split_newline cs = l0 # ls"
    using split_newline_not_Nil[of cs] by (cases "split_newline cs") auto
  with Cons.prems Cons.IH[of l0] Cons.IH[of l] show ?case
    by (auto split: if_splits)
qed

lemma map_JSON_parse_ok:
  "\<forall>l\<in>set ls. JSON_parse l \<noteq> None \<Longrightarrow>
   map_JSON_parse ls = Inr (map (\<lambda>l. the (JSON_parse l)) ls)"
  by (induction ls) auto

lemma map_JSON_parse_fail:
  "\<exists>l\<in>set ls. JSON_parse l = None \<Longrightarrow> map_JSON_parse ls = Inl SyntaxError"
proof (induction ls)
  case Nil
  then show ?case by simp
next
  case (Cons a ls)
  show ?case
  proof (cases "JSON_parse a")
    case None
    then show ?thesis by simp
  next
    case (Some v)
    with Cons.prems have "\<exists>l\<in>set ls. JSON_parse l = None" by auto
    with Cons.IH Some show ?thesis by simp
  qed
qed

lemma parseJsonChunk_whole:
  "JSON_parse t = Some v \<Longrightarrow>
   parseJsonChunk t = (case v of JArray items \<Rightarrow> Inr items | _ \<Rightarrow> Inr [v])"
  by (simp add: parseJsonChunk_def)

lemma parseJsonChunk_lines:
  assumes "JSON_parse t = None"
  shows "parseJsonChunk t =
     (let ls = filter (\<lambda>l. \<exists>c\<in>set l. \<not> is_js_space c) (split_newline t)
      in if \<forall>l\<in>set ls. JSON_parse l \<noteq> None
         then Inr (map (\<lambda>l. the (JSON_parse l)) ls)
         else Inl SyntaxError)"
proof -
  let ?ls = "filter (\<lambda>l. \<exists>c\<in>set l. \<not> is_js_space c) (split_newline t)"
  have p: "parseJsonChunk t = map_JSON_parse ?ls"
    using assms by (simp add: parseJsonChunk_def trim_blank_iff)
  show ?thesis
  proof (cases "\<forall>l\<in>set ?ls. JSON_parse l \<noteq> None")
    case True
    then show ?thesis unfolding p Let_def by (simp only: map_JSON_parse_ok[OF True] if_P[OF True])
  next
    case False
    then have "\<exists>l\<in>set ?ls. JSON_parse l = None" by (simp only: ball_simps not_not)
    then have "map_JSON_parse ?ls = Inl SyntaxError" by (rule map_JSON_parse_fail)
    with False show ?thesis unfolding p Let_def by (simp only: if_False)
  qed
qed

lemma decode_array: \<open>parseJsonChunk (str ''["a","b"]'') = Inr [JString (str ''a''), JString (str ''b'')]\<close>
  by (simp add: chunk_eval)

lemma decode_object: \<open>parseJsonChunk (str ''{"x":1}'') = Inr [JObject [(str ''x'', JNumber 1 0)]]\<close>
  by (simp add: chunk_eval)

lemma decode_lines:
  \<open>parseJsonChunk (str ''{"x":1}'' @ [0x0A] @ str ''{"y":2}'') =
   Inr [JObject [(str ''x'', JNumber 1 0)], JObject [(str ''y'', JNumber 2 0)]]\<close>
  by (simp add: chunk_eval)

lemma decode_bad: \<open>parseJsonChunk (str ''{bad json'') = Inl SyntaxError\<close>
  by (simp add: chunk_eval)

text \<open>
  Claim C1. The record decoder first parses the whole payload: an array gives its elements
  in order, any other value a one-element list. When that parse fails it splits the text
  on newlines, drops the lines that hold only white space, and parses each remaining line
  on its own; one line that fails makes the whole call throw (the \<open>SyntaxError\<close> of
  \<open>JSON.parse\<close>), none is dropped. The four payloads of the specification decode as it says.
\<close>

theorem parseJsonChunk_policy:
  \<open>parseJsonChunk t =
     (case JSON_parse t of
        Some (JArray items) \<Rightarrow> Inr items
      | Some v \<Rightarrow> Inr [v]
      | None \<Rightarrow>
          (let ls = filter (\<lambda>l. \<exists>c\<in>set l. \<not> is_js_space c) (split_newline t)
           in if \<forall>l\<in>set ls. JSON_parse l \<noteq> None
              then Inr (map (\<lambda>l. the (JSON_parse l)) ls)
              else Inl SyntaxError))
   \<and> parseJsonChunk (str ''["a","b"]'') = Inr [JString (str ''a''), JString (str ''b'')]
   \<and> parseJsonChunk (str ''{"x":1}'') = Inr [JObject [(str ''x'', JNumber 1 0)]]
   \<and> parseJsonChunk (str ''{"x":1}'' @ [0x0A] @ str ''{"y":2}'') =
       Inr [JObject [(str ''x'', JNumber 1 0)], JObject [(str ''y'', JNumber 2 0)]]
   \<and> parseJsonChunk (str ''{bad json'') = Inl SyntaxError\<close>
proof -
  have "parseJsonChunk t =
     (case JSON_parse t of
        Some (JArray items) \<Rightarrow> Inr items
      | Some v \<Rightarrow> Inr [v]
      | None \<Rightarrow>
          (let ls = filter (\<lambda>l. \<exists>c\<in>set l. \<not> is_js_space c) (split_newline t)
           in if \<forall>l\<in>set ls. JSON_parse l \<noteq> None
              then Inr (map (\<lambda>l. the (JSON_parse l)) ls)
              else Inl SyntaxError))"
  proof (cases "JSON_parse t")
    case None
    then show ?thesis using parseJsonChunk_lines[OF None] by simp
  next
    case (Some v)
    then show ?thesis using parseJsonChunk_whole[OF Some] by (cases v) simp_all
  qed
  then show ?thesis
    using decode_array decode_object decode_lines decode_bad by blast
qed

theorem parseJsonChunk_policy_witness:
  "parseJsonChunk [0x31, 0x0A, 0x20, 0x0A, 0x5B, 0x32, 0x5D] = Inr [JNumber 1 0, JArray [JNumber 2 0]]
   \<and> parseJsonChunk [0x31, 0x0A, 0x78] = Inl SyntaxError"
  using parseJsonChunk_policy[of "[0x31, 0x0A, 0x20, 0x0A, 0x5B, 0x32, 0x5D]"]
    parseJsonChunk_policy[of "[0x31, 0x0A, 0x78]"]
  by (simp add: is_js_space_def json_eval)

text \<open>
  Claim C9. A payload that holds only white space and line breaks (the empty payload
  too) is no JSON text, so the whole-payload parse fails; every line is then blank and is
  dropped, and the decoder returns the empty list without throwing.
\<close>

theorem parseJsonChunk_blank:
  assumes "\<forall>c\<in>set t. is_js_space c"
  shows "JSON_parse t = None \<and> parseJsonChunk t = Inr []"
proof -
  have n: "JSON_parse t = None" using assms by (rule JSON_parse_blank)
  have "\<not> (\<exists>c\<in>set l. \<not> is_js_space c)" if "l \<in> set (split_newline t)" for l
    using assms split_newline_sub[OF that] by blast
  then have "filter (\<lambda>l. \<exists>c\<in>set l. \<not> is_js_space c) (split_newline t) = []"
    by (simp add: filter_empty_conv)
  then have "parseJsonChunk t = Inr []"
    using parseJsonChunk_lines[OF n] by simp
  with n show ?thesis by simp
qed

theorem parseJsonChunk_blank_witness:
  "parseJsonChunk [] = Inr [] \<and> parseJsonChunk [0x20, 0x0A, 0x09, 0x0D, 0x0A, 0x0B, 0xA0] = Inr []"
  using parseJsonChunk_blank[of "[]"] parseJsonChunk_blank[of "[0x20, 0x0A, 0x09, 0x0D, 0x0A, 0x0B, 0xA0]"]
  by (simp add: is_js_space_def)

subsection \<open>The lifecycle\<close>

lemma settled_once_update [simp]:
  "settled_once (s\<lparr>aborted := a\<rparr>) = settled_once s"
  "settled_once (s\<lparr>sseIterator := it\<rparr>) = settled_once s"
  "settled_once (s\<lparr>transport := t\<rparr>) = settled_once s"
  "settled_once (s\<lparr>offset := x\<rparr>) = settled_once s"
  "settled_once (s\<lparr>cursor := c\<rparr>) = settled_once s"
  "settled_once (s\<lparr>upToDate := u\<rparr>) = settled_once s"
  "settled_once (s\<lparr>firstResponse := r\<rparr>) = settled_once s"
  "settled_once (s\<lparr>stopAfterUpToDate := b\<rparr>) = settled_once s"
  by (simp_all add: settled_once_def)

lemma settled_once_new: "settled_once (new_StreamResponse config)"
  by (simp add: settled_once_def new_StreamResponse_def)

lemma settled_once_markConsuming: "settled_once s \<Longrightarrow> settled_once (markConsuming s)"
  by (auto simp: settled_once_def markConsuming_def)

lemma settled_once_markClosed: "settled_once s \<Longrightarrow> settled_once (markClosed s)"
  by (simp add: settled_once_def markClosed_def)

lemma settled_once_markError: "settled_once s \<Longrightarrow> settled_once (markError e s)"
  by (simp add: settled_once_def markError_def)

lemma settled_once_cancel: "settled_once s \<Longrightarrow> settled_once (cancel s)"
  by (simp add: cancel_def settled_once_markClosed)

lemma settled_once_updateState:
  "settled_once (updateStateFromResponse r s) = settled_once s"
  by (simp add: updateStateFromResponse_def Let_def split: option.splits)

lemma settled_once_log_call: "settled_once (log_call c s) = settled_once s"
  by (simp add: log_call_def)

lemma settled_once_ext_step:
  "settled_once (snd p) \<Longrightarrow> settled_once (snd (ext_step op p))"
  by (cases op; cases p)
     (simp_all add: settled_once_cancel stream_cancel_def source_cancel_def settled_once_markClosed)

lemma settled_once_run_ops:
  "settled_once (snd p) \<Longrightarrow> settled_once (snd (run_ops ops p))"
  unfolding run_ops_def by (induction ops arbitrary: p) (simp_all add: settled_once_ext_step)

lemma settled_once_close_and_return:
  "settled_once s \<Longrightarrow> settled_once (snd (snd (close_and_return (st, s))))"
  by (simp add: close_and_return_def settled_once_markClosed split: sum.splits)

lemma settled_once_after_first:
  "settled_once s \<Longrightarrow> settled_once (snd (snd (after_first d (st, s))))"
  by (simp add: after_first_def settled_once_close_and_return split: sum.splits)

lemma settled_once_after_emit:
  "settled_once s \<Longrightarrow> settled_once (snd (snd (after_emit (st, s))))"
  by (simp add: after_emit_def settled_once_close_and_return)

lemma settled_once_pull_first:
  assumes "settled_once s"
  shows "settled_once (snd (snd (pull_first i r (st, s))))"
proof (cases "body r")
  case None
  then show ?thesis using assms by (simp add: pull_first_def settled_once_after_first)
next
  case (Some rs)
  obtain st1 s1 where r: "run_ops (interleaved i) (st, s) = (st1, s1)"
    by (cases "run_ops (interleaved i) (st, s)")
  have "settled_once s1" using settled_once_run_ops[of "(st, s)" "interleaved i"] assms r by simp
  then show ?thesis using Some r
    by (simp add: pull_first_def settled_once_after_first split: sum.splits)
qed

lemma settled_once_start_iterator:
  "settled_once s \<Longrightarrow> start_iterator i s = Inr s1 \<Longrightarrow> settled_once s1"
  by (auto simp: start_iterator_def split: option.splits sum.splits)

lemma settled_once_pull_sse:
  assumes "settled_once s"
  shows "settled_once (snd (snd (pull_sse i (st, s))))"
proof (cases "start_iterator i (if sseIterator s = None
                                then log_call (StartSSE (offset s) (cursor s)) s else s)")
  case (Inl e)
  then show ?thesis using assms by (simp add: pull_sse_def settled_once_log_call)
next
  case (Inr s1)
  have s1: "settled_once s1"
    using settled_once_start_iterator[OF _ Inr] assms by (simp add: settled_once_log_call)
  obtain st2 s2 where r: "run_ops (interleaved i) (st, s1) = (st2, s2)"
    by (cases "run_ops (interleaved i) (st, s1)")
  have s2: "settled_once s2" using settled_once_run_ops[of "(st, s1)" "interleaved i"] s1 r by simp
  show ?thesis using Inr r s2
    by (simp add: pull_sse_def Let_def settled_once_close_and_return settled_once_after_emit
        split: sse_result.splits sum.splits)
qed

lemma settled_once_pull_long_poll:
  assumes "settled_once s"
  shows "settled_once (snd (snd (pull_long_poll i (st, s))))"
proof (cases "aborted s")
  case True
  then show ?thesis using assms by (simp add: pull_long_poll_def settled_once_close_and_return)
next
  case False
  obtain st2 s2 where r: "run_ops (interleaved i) (st, log_call (FetchNext (offset s) (cursor s)) s) = (st2, s2)"
    by (cases "run_ops (interleaved i) (st, log_call (FetchNext (offset s) (cursor s)) s)")
  have s2: "settled_once s2"
    using settled_once_run_ops[of "(st, log_call (FetchNext (offset s) (cursor s)) s)" "interleaved i"]
      assms r by (simp add: settled_once_log_call)
  show ?thesis using False r s2
    by (simp add: pull_long_poll_def Let_def settled_once_updateState settled_once_after_emit
        split: sum.splits)
qed

lemma settled_once_pull_try:
  "settled_once s \<Longrightarrow> settled_once (snd (snd (pull_try i (st, s))))"
  by (simp add: pull_try_def settled_once_pull_first settled_once_pull_sse
      settled_once_pull_long_poll settled_once_close_and_return split: option.splits)

lemma settled_once_pull_catch:
  "settled_once s \<Longrightarrow> settled_once (snd (pull_catch e (st, s)))"
  by (simp add: pull_catch_def settled_once_markClosed settled_once_markError split: sum.splits)

lemma settled_once_pull:
  assumes "settled_once s"
  shows "settled_once (snd (pull i (st, s)))"
proof -
  obtain r st1 s1 where t: "pull_try i (st, s) = (r, st1, s1)"
    by (cases "pull_try i (st, s)")
  have "settled_once s1" using settled_once_pull_try[OF assms, of i st] t by simp
  then show ?thesis using t
    by (cases r) (simp_all add: pull_def settled_once_pull_catch)
qed

lemma settled_once_session_step:
  "settled_once (fst w) \<Longrightarrow> settled_once (fst (session_step op w))"
proof (cases w)
  case (Pair s sts)
  assume "settled_once (fst w)"
  with Pair have s: "settled_once s" by simp
  show ?thesis
  proof (cases op)
    case (Pull k i)
    then show ?thesis using Pair s settled_once_pull[OF s, of i "sts ! k"]
      by (auto split: prod.splits)
  next
    case (CancelStream k)
    then show ?thesis using Pair s settled_once_ext_step[of "(sts ! k, s)" StreamCancel]
      by (auto split: prod.splits)
  qed (use Pair s in \<open>simp_all add: createByteStream_def settled_once_markConsuming
        settled_once_cancel settled_once_markClosed\<close>)
qed

lemma settled_once_history: "settled_once (fst (history config ops))"
proof -
  have "settled_once (fst w) \<Longrightarrow> settled_once (fst (fold session_step ops w))" for w
    by (induction ops arbitrary: w) (simp_all add: settled_once_session_step)
  then show ?thesis by (simp add: history_def settled_once_new)
qed

lemma close_step_closed:
  "state s = Closed \<Longrightarrow> state (close_step c s) = Closed \<and> closedCalls (close_step c s) = closedCalls s"
  by (cases c) (simp_all add: markClosed_def markError_def cancel_def)

lemma close_step_open:
  "state s \<noteq> Closed \<Longrightarrow>
   state (close_step c s) = Closed \<and> closedCalls (close_step c s) = closedCalls s @ [settle_of c]"
  by (cases c) (simp_all add: markClosed_def markError_def cancel_def)

lemma fold_close_step_closed:
  "state s = Closed \<Longrightarrow>
   state (fold close_step cs s) = Closed \<and> closedCalls (fold close_step cs s) = closedCalls s"
  by (induction cs arbitrary: s) (simp_all add: close_step_closed)

lemma fold_close_step_open:
  assumes "state s \<noteq> Closed" "cs \<noteq> []"
  shows "state (fold close_step cs s) = Closed \<and>
         closedCalls (fold close_step cs s) = closedCalls s @ [settle_of (hd cs)]"
proof (cases cs)
  case Nil
  with assms show ?thesis by simp
next
  case (Cons c cs')
  have "state (close_step c s) = Closed" using close_step_open[OF assms(1)] by simp
  from fold_close_step_closed[OF this, of cs'] close_step_open[OF assms(1), of c] Cons
  show ?thesis by simp
qed

text \<open>
  Claim C5. Take any session, in any state its history can lead to (fresh, consuming,
  closed by completion, by an error or by a cancellation), and any sequence of
  \<open>#markClosed\<close>, \<open>#markError\<close> and \<open>cancel\<close> calls on it. The \<open>closed\<close> promise is settled by
  at most one call; the first call of the sequence on a session that is not closed
  settles it (resolved by a clean close or a cancel, rejected by an error close) and
  closes the session; every call on a closed session leaves the state and the calls made
  to the promise as they are.
\<close>

theorem closed_settled_exactly_once:
  "(let s = fst (history config ops); s' = fold close_step cs s
    in settled_once s \<and> settled_once s' \<and>
       (cs \<noteq> [] \<longrightarrow> state s' = Closed \<and> length (closedCalls s') = 1) \<and>
       (state s \<noteq> Closed \<and> cs \<noteq> [] \<longrightarrow> closedCalls s' = [settle_of (hd cs)]) \<and>
       (state s = Closed \<longrightarrow> state s' = Closed \<and> closedCalls s' = closedCalls s))"
proof -
  let ?s = "fst (history config ops)"
  let ?s' = "fold close_step cs ?s"
  have a: "settled_once ?s" by (rule settled_once_history)
  have b: "state ?s = Closed \<Longrightarrow> state ?s' = Closed \<and> closedCalls ?s' = closedCalls ?s"
    by (rule fold_close_step_closed)
  have c: "state ?s' = Closed \<and> closedCalls ?s' = [settle_of (hd cs)]"
    if "state ?s \<noteq> Closed" "cs \<noteq> []"
    using fold_close_step_open[OF that] a that(1) by (simp add: settled_once_def)
  have d: "settled_once ?s'"
  proof (cases "state ?s = Closed")
    case True
    with a b show ?thesis by (simp add: settled_once_def)
  next
    case False
    show ?thesis
    proof (cases "cs = []")
      case True
      with a show ?thesis by simp
    next
      case n: False
      from c[OF False n] show ?thesis by (simp add: settled_once_def)
    qed
  qed
  have e: "state ?s' = Closed \<and> length (closedCalls ?s') = 1" if "cs \<noteq> []"
  proof (cases "state ?s = Closed")
    case True
    with a b show ?thesis by (simp add: settled_once_def)
  next
    case False
    from c[OF False that] show ?thesis by simp
  qed
  show ?thesis unfolding Let_def using a b c d e by blast
qed

lemma clean_step_refl: "clean_step s s"
  by (simp add: clean_step_def)

lemma clean_step_trans: "clean_step s s1 \<Longrightarrow> clean_step s1 s2 \<Longrightarrow> clean_step s s2"
  by (auto simp: clean_step_def)

lemma clean_step_update [simp]:
  "clean_step s (s'\<lparr>aborted := a\<rparr>) = clean_step s s'"
  "clean_step s (s'\<lparr>sseIterator := it\<rparr>) = clean_step s s'"
  "clean_step s (s'\<lparr>transport := t\<rparr>) = clean_step s s'"
  "clean_step s (s'\<lparr>offset := x\<rparr>) = clean_step s s'"
  "clean_step s (s'\<lparr>cursor := c\<rparr>) = clean_step s s'"
  "clean_step s (s'\<lparr>upToDate := u\<rparr>) = clean_step s s'"
  "clean_step s (s'\<lparr>firstResponse := r\<rparr>) = clean_step s s'"
  "clean_step s (s'\<lparr>stopAfterUpToDate := b\<rparr>) = clean_step s s'"
  by (simp_all add: clean_step_def)

lemma clean_step_markClosed: "clean_step s s1 \<Longrightarrow> clean_step s (markClosed s1)"
  by (auto simp: clean_step_def markClosed_def)

lemma clean_step_cancel: "clean_step s s1 \<Longrightarrow> clean_step s (cancel s1)"
  by (simp add: cancel_def clean_step_markClosed)

lemma clean_step_updateState: "clean_step s (updateStateFromResponse r s1) = clean_step s s1"
  by (simp add: updateStateFromResponse_def Let_def split: option.splits)

lemma clean_step_log_call: "clean_step s (log_call c s1) = clean_step s s1"
  by (simp add: log_call_def)

lemma clean_step_ext_step: "clean_step s (snd p) \<Longrightarrow> clean_step s (snd (ext_step op p))"
  by (cases op; cases p)
     (simp_all add: clean_step_cancel stream_cancel_def source_cancel_def clean_step_markClosed)

lemma clean_step_run_ops: "clean_step s (snd p) \<Longrightarrow> clean_step s (snd (run_ops ops p))"
  unfolding run_ops_def by (induction ops arbitrary: p) (simp_all add: clean_step_ext_step)

lemma clean_step_close_and_return:
  "clean_step s s1 \<Longrightarrow> clean_step s (snd (snd (close_and_return (st, s1))))"
  by (simp add: close_and_return_def clean_step_markClosed split: sum.splits)

lemma clean_step_after_first:
  "clean_step s s1 \<Longrightarrow> clean_step s (snd (snd (after_first d (st, s1))))"
  by (simp add: after_first_def clean_step_close_and_return split: sum.splits)

lemma clean_step_after_emit:
  "clean_step s s1 \<Longrightarrow> clean_step s (snd (snd (after_emit (st, s1))))"
  by (simp add: after_emit_def clean_step_close_and_return)

lemma clean_step_pull_first:
  assumes "clean_step s s0"
  shows "clean_step s (snd (snd (pull_first i r (st, s0))))"
proof (cases "body r")
  case None
  then show ?thesis using assms by (simp add: pull_first_def clean_step_after_first)
next
  case (Some rs)
  obtain st1 s1 where r: "run_ops (interleaved i) (st, s0) = (st1, s1)"
    by (cases "run_ops (interleaved i) (st, s0)")
  have "clean_step s s1" using clean_step_run_ops[of s "(st, s0)" "interleaved i"] assms r by simp
  then show ?thesis using Some r
    by (simp add: pull_first_def clean_step_after_first split: sum.splits)
qed

lemma clean_step_start_iterator:
  "clean_step s s0 \<Longrightarrow> start_iterator i s0 = Inr s1 \<Longrightarrow> clean_step s s1"
  by (auto simp: start_iterator_def split: option.splits sum.splits)

lemma clean_step_pull_sse: "clean_step s (snd (snd (pull_sse i (st, s))))"
proof (cases "start_iterator i (if sseIterator s = None
                                then log_call (StartSSE (offset s) (cursor s)) s else s)")
  case (Inl e)
  then show ?thesis by (simp add: pull_sse_def clean_step_log_call clean_step_refl)
next
  case (Inr s1)
  have s1: "clean_step s s1"
    using clean_step_start_iterator[OF _ Inr, of s] by (simp add: clean_step_log_call clean_step_refl)
  obtain st2 s2 where r: "run_ops (interleaved i) (st, s1) = (st2, s2)"
    by (cases "run_ops (interleaved i) (st, s1)")
  have s2: "clean_step s s2" using clean_step_run_ops[of s "(st, s1)" "interleaved i"] s1 r by simp
  show ?thesis using Inr r s2
    by (simp add: pull_sse_def Let_def clean_step_close_and_return clean_step_after_emit
        split: sse_result.splits sum.splits)
qed

lemma clean_step_pull_long_poll: "clean_step s (snd (snd (pull_long_poll i (st, s))))"
proof (cases "aborted s")
  case True
  then show ?thesis
    by (simp add: pull_long_poll_def clean_step_close_and_return clean_step_refl)
next
  case False
  obtain st2 s2 where r: "run_ops (interleaved i) (st, log_call (FetchNext (offset s) (cursor s)) s) = (st2, s2)"
    by (cases "run_ops (interleaved i) (st, log_call (FetchNext (offset s) (cursor s)) s)")
  have s2: "clean_step s s2"
    using clean_step_run_ops[of s "(st, log_call (FetchNext (offset s) (cursor s)) s)" "interleaved i"] r
    by (simp add: clean_step_log_call clean_step_refl)
  show ?thesis using False r s2
    by (simp add: pull_long_poll_def Let_def clean_step_updateState clean_step_after_emit
        split: sum.splits)
qed

lemma clean_step_pull_try: "clean_step s (snd (snd (pull_try i (st, s))))"
  by (simp add: pull_try_def clean_step_pull_first clean_step_pull_sse
      clean_step_pull_long_poll clean_step_close_and_return clean_step_refl split: option.splits)

lemma state_pull_catch:
  "state (snd (pull_catch e (st, s))) = Closed"
  by (simp add: pull_catch_def markClosed_def markError_def split: sum.splits)

lemma state_pull: "state (snd (pull i (st, s))) = state s \<or> state (snd (pull i (st, s))) = Closed"
proof -
  obtain r st1 s1 where t: "pull_try i (st, s) = (r, st1, s1)"
    by (cases "pull_try i (st, s)")
  have "clean_step s s1" using clean_step_pull_try[of s i st] t by simp
  then show ?thesis using t state_pull_catch[of _ st1 s1]
    by (cases r) (auto simp: pull_def clean_step_def)
qed

lemma history_snoc: "history config (ops @ [op]) = session_step op (history config ops)"
  by (simp add: history_def)

lemma history_Nil: "history config [] = (new_StreamResponse config, [])"
  by (simp add: history_def)

lemma state_session_step:
  "state (fst w) \<noteq> Ready \<Longrightarrow> state (fst (session_step op w)) \<noteq> Ready"
proof (cases w)
  case (Pair s sts)
  assume "state (fst w) \<noteq> Ready"
  with Pair have s: "state s \<noteq> Ready" by simp
  show ?thesis
  proof (cases op)
    case (Pull k i)
    then show ?thesis using Pair s state_pull[of i "sts ! k" s]
      by (auto split: prod.splits)
  next
    case (CancelStream k)
    then show ?thesis using Pair s
      by (auto simp: stream_cancel_def source_cancel_def markClosed_def split: prod.splits)
  qed (use Pair s in \<open>auto simp: createByteStream_def markConsuming_def cancel_def markClosed_def\<close>)
qed

lemma history_before_consumption:
  assumes "CreateByteStream \<notin> set ops"
  shows "snd (history config ops) = [] \<and>
         firstResponse (fst (history config ops)) = Some (config_firstResponse config) \<and>
         position (fst (history config ops)) =
           (config_initialOffset config, config_initialCursor config, config_initialUpToDate config) \<and>
         state (fst (history config ops)) =
           (if CancelCall \<in> set ops \<or> EndAccumulating \<in> set ops then Closed else Ready)"
  using assms
proof (induction ops rule: rev_induct)
  case Nil
  show ?case by (simp add: history_Nil new_StreamResponse_def position_def)
next
  case (snoc op ops)
  obtain s where h: "history config ops = (s, [])"
    using snoc by (cases "history config ops") auto
  show ?case using snoc h
    by (cases op)
       (auto simp: history_snoc position_def cancel_def markClosed_def)
qed

lemma closed_session_step:
  "state (fst w) = Closed \<Longrightarrow> state (fst (session_step op w)) = Closed"
proof (cases w)
  case (Pair s sts)
  assume "state (fst w) = Closed"
  with Pair have s: "state s = Closed" by simp
  show ?thesis
  proof (cases op)
    case (Pull k i)
    then show ?thesis using Pair s state_pull[of i "sts ! k" s]
      by (auto split: prod.splits)
  next
    case (CancelStream k)
    then show ?thesis using Pair s
      by (auto simp: stream_cancel_def source_cancel_def markClosed_def split: prod.splits)
  qed (use Pair s in \<open>auto simp: createByteStream_def markConsuming_def cancel_def markClosed_def\<close>)
qed

lemma never_ready_again:
  "state (fst w) \<noteq> Ready \<Longrightarrow> state (fst (fold session_step later w)) \<noteq> Ready"
  by (induction later arbitrary: w) (simp_all add: state_session_step)

lemma stays_closed:
  "state (fst w) = Closed \<Longrightarrow> state (fst (fold session_step later w)) = Closed"
  by (induction later arbitrary: w) (simp_all add: closed_session_step)

lemma history_append:
  "history config (ops @ later) = fold session_step later (history config ops)"
  by (simp add: history_def)

lemma created_not_ready:
  assumes "CreateByteStream \<in> set ops"
  shows "state (fst (history config ops)) \<noteq> Ready"
proof -
  from split_list[OF assms] obtain pre post where sp: "ops = pre @ CreateByteStream # post"
    by blast
  have "state (fst (history config (pre @ [CreateByteStream]))) \<noteq> Ready"
    by (cases "history config pre")
       (auto simp: history_snoc createByteStream_def markConsuming_def)
  from never_ready_again[OF this, of post] show ?thesis
    by (simp add: sp history_def)
qed

lemma ready_iff:
  "state (fst (history config ops)) = Ready \<longleftrightarrow>
     CreateByteStream \<notin> set ops \<and> CancelCall \<notin> set ops \<and> EndAccumulating \<notin> set ops"
proof (cases "CreateByteStream \<in> set ops")
  case True
  with created_not_ready[of ops config] show ?thesis by simp
next
  case False
  from history_before_consumption[OF False, of config] False show ?thesis by auto
qed

lemma first_creation:
  assumes "state (fst (history config ops)) = Ready"
  shows "history config (ops @ [CreateByteStream]) =
           ((fst (history config ops))\<lparr>state := Consuming\<rparr>, [new_ByteStream]) \<and>
         firstResponse (fst (history config ops)) = Some (config_firstResponse config)"
proof -
  from assms ready_iff[of config ops] have n: "CreateByteStream \<notin> set ops" by simp
  obtain s sts where h: "history config ops = (s, sts)"
    by (cases "history config ops")
  from history_before_consumption[OF n, of config] h
  have "sts = []" and "firstResponse s = Some (config_firstResponse config)"
    by simp_all
  with assms h show ?thesis
    by (simp add: history_snoc createByteStream_def markConsuming_def)
qed

lemma transition_step:
  "state (fst (history config ops)) = Ready \<and>
   state (fst (history config (ops @ [op]))) = Consuming \<longleftrightarrow>
     op = CreateByteStream \<and>
     CreateByteStream \<notin> set ops \<and> CancelCall \<notin> set ops \<and> EndAccumulating \<notin> set ops"
proof
  assume a: "state (fst (history config ops)) = Ready \<and>
             state (fst (history config (ops @ [op]))) = Consuming"
  with ready_iff[of config ops]
  have n: "CreateByteStream \<notin> set ops" "CancelCall \<notin> set ops" "EndAccumulating \<notin> set ops"
    by simp_all
  have "state (fst (history config (ops @ [op]))) = Ready \<or>
        state (fst (history config (ops @ [op]))) = Closed" if "op \<noteq> CreateByteStream"
  proof -
    from that n have "CreateByteStream \<notin> set (ops @ [op])" by simp
    from history_before_consumption[OF this, of config] show ?thesis
      by (simp split: if_splits)
  qed
  with a n show "op = CreateByteStream \<and>
     CreateByteStream \<notin> set ops \<and> CancelCall \<notin> set ops \<and> EndAccumulating \<notin> set ops"
    by auto
next
  assume b: "op = CreateByteStream \<and>
     CreateByteStream \<notin> set ops \<and> CancelCall \<notin> set ops \<and> EndAccumulating \<notin> set ops"
  with ready_iff[of config ops] have r: "state (fst (history config ops)) = Ready" by simp
  from first_creation[OF r] b r
  show "state (fst (history config ops)) = Ready \<and>
        state (fst (history config (ops @ [op]))) = Consuming"
    by simp
qed

lemma becomes_consuming_iff:
  "becomes_consuming config ops k \<longleftrightarrow>
     k < length ops \<and> ops ! k = CreateByteStream \<and>
     CreateByteStream \<notin> set (take k ops) \<and> CancelCall \<notin> set (take k ops) \<and>
     EndAccumulating \<notin> set (take k ops)"
proof (cases "k < length ops")
  case True
  then have t: "take (Suc k) ops = take k ops @ [ops ! k]"
    by (rule take_Suc_conv_app_nth)
  from transition_step[of config "take k ops" "ops ! k"] True show ?thesis
    by (simp add: becomes_consuming_def t)
next
  case False
  then show ?thesis by (simp add: becomes_consuming_def)
qed

lemma becomes_consuming_once:
  assumes "becomes_consuming config ops k" "becomes_consuming config ops k'"
  shows "k = k'"
proof -
  have no: False
    if a: "becomes_consuming config ops i" and b: "becomes_consuming config ops j" and l: "i < j"
    for i j
  proof -
    from a becomes_consuming_iff[of config ops i]
    have i: "i < length ops" "ops ! i = CreateByteStream" by simp_all
    from b becomes_consuming_iff[of config ops j]
    have j: "CreateByteStream \<notin> set (take j ops)" by simp
    from i l have "ops ! i \<in> set (take j ops)"
      by (auto simp: in_set_conv_nth intro!: exI[of _ i])
    with i j show False by simp
  qed
  show ?thesis
  proof (rule ccontr)
    assume "k \<noteq> k'"
    then have "k < k' \<or> k' < k" by arith
    with no[OF assms(1) assms(2)] no[OF assms(2) assms(1)] show False by blast
  qed
qed

text \<open>
  Claim C8, as the code has it. A session leaves \<open>Ready\<close> when a consumption method is
  called, not when the first chunk is pulled: \<open>#createByteStream\<close> marks the session
  \<open>Consuming\<close> before it builds the stream. So a session is \<open>Ready\<close> exactly as long as no
  byte stream has been created and the session has not been closed; the first creation
  of a byte stream on a \<open>Ready\<close> session makes it \<open>Consuming\<close> at once, with the first
  response still unread and nothing pulled; a session is never \<open>Consuming\<close> without a byte
  stream having been created; once it has left \<open>Ready\<close> it never returns there, and once
  it is \<open>Closed\<close> it stays \<open>Closed\<close>. The step from \<open>Ready\<close> to \<open>Consuming\<close> is therefore the
  first creation of a byte stream on a session that has not been closed before: it is
  taken at most once in a history, and never in a history in which the session is
  cancelled (or closed by an accumulating method) before a byte stream is created, where
  the session is \<open>Closed\<close> from then on whatever follows.
\<close>

theorem ready_until_stream_created:
  "(state (fst (history config ops)) = Ready \<longleftrightarrow>
      CreateByteStream \<notin> set ops \<and> CancelCall \<notin> set ops \<and> EndAccumulating \<notin> set ops) \<and>
   (state (fst (history config ops)) = Ready \<longrightarrow>
      history config (ops @ [CreateByteStream]) =
        ((fst (history config ops))\<lparr>state := Consuming\<rparr>, [new_ByteStream]) \<and>
      firstResponse (fst (history config ops)) = Some (config_firstResponse config)) \<and>
   (state (fst (history config ops)) = Consuming \<longrightarrow> CreateByteStream \<in> set ops) \<and>
   (state (fst (history config ops)) \<noteq> Ready \<longrightarrow>
      state (fst (history config (ops @ later))) \<noteq> Ready) \<and>
   (state (fst (history config ops)) = Closed \<longrightarrow>
      state (fst (history config (ops @ later))) = Closed) \<and>
   (CreateByteStream \<notin> set ops \<and> (CancelCall \<in> set ops \<or> EndAccumulating \<in> set ops) \<longrightarrow>
      state (fst (history config (ops @ later))) = Closed) \<and>
   (state (fst (history config ops)) = Ready \<and>
    state (fst (history config (ops @ [op]))) = Consuming \<longleftrightarrow>
      op = CreateByteStream \<and>
      CreateByteStream \<notin> set ops \<and> CancelCall \<notin> set ops \<and> EndAccumulating \<notin> set ops) \<and>
   (becomes_consuming config ops k \<longleftrightarrow>
      k < length ops \<and> ops ! k = CreateByteStream \<and>
      CreateByteStream \<notin> set (take k ops) \<and> CancelCall \<notin> set (take k ops) \<and>
      EndAccumulating \<notin> set (take k ops)) \<and>
   (becomes_consuming config ops k \<and> becomes_consuming config ops k' \<longrightarrow> k = k')"
proof -
  let ?s = "fst (history config ops)"
  have d: "state ?s \<noteq> Ready \<longrightarrow> state (fst (history config (ops @ later))) \<noteq> Ready"
    using never_ready_again[of "history config ops" later] by (simp add: history_append)
  have e: "state ?s = Closed \<longrightarrow> state (fst (history config (ops @ later))) = Closed"
    using stays_closed[of "history config ops" later] by (simp add: history_append)
  have f: "state (fst (history config (ops @ later))) = Closed"
    if n: "CreateByteStream \<notin> set ops" and c: "CancelCall \<in> set ops \<or> EndAccumulating \<in> set ops"
  proof -
    from history_before_consumption[OF n, of config] c have "state ?s = Closed" by auto
    with e show ?thesis by simp
  qed
  have c: "CreateByteStream \<in> set ops" if "state ?s = Consuming"
  proof (rule ccontr)
    assume n: "CreateByteStream \<notin> set ops"
    from history_before_consumption[OF n, of config] that show False
      by (simp split: if_splits)
  qed
  from ready_iff[of config ops] first_creation[of config ops] c d e f
    transition_step[of config ops op] becomes_consuming_iff[of config ops k]
    becomes_consuming_once[of config ops k k']
  show ?thesis by blast
qed

theorem ready_until_stream_created_witness:
  "state (fst (history example_config [AbortSignal, SetStopAfterUpToDate])) = Ready \<and>
   state (fst (history example_config [AbortSignal, SetStopAfterUpToDate, CreateByteStream])) = Consuming \<and>
   snd (history example_config [AbortSignal, SetStopAfterUpToDate, CreateByteStream]) = [new_ByteStream] \<and>
   state (fst (history example_config [CancelCall, CreateByteStream, Pull 0 example_input])) = Closed \<and>
   becomes_consuming example_config [AbortSignal, CreateByteStream, CreateByteStream] 1 \<and>
   \<not> becomes_consuming example_config [AbortSignal, CreateByteStream, CreateByteStream] 2 \<and>
   \<not> becomes_consuming example_config [CancelCall, CreateByteStream] 1"
  using ready_until_stream_created[of example_config "[AbortSignal, SetStopAfterUpToDate]" "[]"]
    ready_until_stream_created[of example_config "[CancelCall]"
      "[CreateByteStream, Pull 0 example_input]"]
    ready_until_stream_created[of example_config "[AbortSignal, CreateByteStream, CreateByteStream]"
      _ _ 1]
    ready_until_stream_created[of example_config "[AbortSignal, CreateByteStream, CreateByteStream]"
      _ _ 2]
    ready_until_stream_created[of example_config "[CancelCall, CreateByteStream]" _ _ 1]
  by simp

theorem consuming_before_first_pull:
  "\<not> (\<forall>ops. (\<forall>k i. Pull k i \<notin> set ops) \<longrightarrow> state (fst (history example_config ops)) = Ready) \<and>
   state (fst (history example_config [CreateByteStream])) = Consuming \<and>
   firstResponse (fst (history example_config [CreateByteStream])) = Some example_response \<and>
   snd (history example_config [CreateByteStream]) = [new_ByteStream]"
proof -
  have e: "history example_config [CreateByteStream] =
     ((new_StreamResponse example_config)\<lparr>state := Consuming\<rparr>, [new_ByteStream])"
    by (simp add: history_def createByteStream_def markConsuming_def new_StreamResponse_def)
  have "\<forall>k i. Pull k i \<notin> set [CreateByteStream]" by simp
  moreover have "state (fst (history example_config [CreateByteStream])) \<noteq> Ready"
    by (simp add: e)
  ultimately have n: "\<not> (\<forall>ops. (\<forall>k i. Pull k i \<notin> set ops) \<longrightarrow> state (fst (history example_config ops)) = Ready)"
    by blast
  have "state (fst (history example_config [CreateByteStream])) = Consuming"
    and "firstResponse (fst (history example_config [CreateByteStream])) = Some example_response"
    and "snd (history example_config [CreateByteStream]) = [new_ByteStream]"
    by (simp_all add: e) (simp_all add: new_StreamResponse_def example_config_def)
  with n show ?thesis by blast
qed

theorem closed_settled_exactly_once_witness:
  "(let s = fst (history example_config [CreateByteStream]);
        s' = fold close_step [MarkError TypeError, CancelSession, MarkClosed] s
    in state s = Consuming \<and> state s' = Closed \<and> closedCalls s' = [Reject TypeError]) \<and>
   (let s = fst (history example_config [CancelCall]);
        s' = fold close_step [MarkError TypeError, MarkClosed] s
    in state s = Closed \<and> state s' = Closed \<and> closedCalls s' = [Resolve])"
  using closed_settled_exactly_once[of example_config "[CreateByteStream]"
      "[MarkError TypeError, CancelSession, MarkClosed]"]
    closed_settled_exactly_once[of example_config "[CancelCall]" "[MarkError TypeError, MarkClosed]"]
  by (simp add: history_def createByteStream_def markConsuming_def new_StreamResponse_def
      cancel_def markClosed_def Let_def)

subsection \<open>The position taken from a continuation response\<close>

lemma position_markClosed [simp]: "position (markClosed s) = position s"
  by (simp add: position_def markClosed_def)

lemma position_markError [simp]: "position (markError e s) = position s"
  by (simp add: position_def markError_def)

lemma position_cancel [simp]: "position (cancel s) = position s"
  by (simp add: position_def cancel_def markClosed_def)

lemma position_update [simp]:
  "position (s\<lparr>aborted := a\<rparr>) = position s"
  "position (s\<lparr>sseIterator := it\<rparr>) = position s"
  "position (s\<lparr>transport := t\<rparr>) = position s"
  "position (s\<lparr>firstResponse := r\<rparr>) = position s"
  "position (s\<lparr>stopAfterUpToDate := b\<rparr>) = position s"
  "position (s\<lparr>state := x\<rparr>) = position s"
  "position (s\<lparr>closedCalls := c\<rparr>) = position s"
  by (simp_all add: position_def)

lemma position_ext_step: "position (snd (ext_step op p)) = position (snd p)"
  by (cases op; cases p) (simp_all add: stream_cancel_def source_cancel_def)

lemma position_run_ops: "position (snd (run_ops ops p)) = position (snd p)"
  unfolding run_ops_def by (induction ops arbitrary: p) (simp_all add: position_ext_step)

lemma position_close_and_return:
  "position (snd (snd (close_and_return (st, s)))) = position s"
  by (simp add: close_and_return_def split: sum.splits)

lemma position_after_emit: "position (snd (snd (after_emit (st, s)))) = position s"
  by (simp add: after_emit_def position_close_and_return)

lemma position_pull_catch: "position (snd (pull_catch e (st, s))) = position s"
  by (simp add: pull_catch_def split: sum.splits)

lemma position_updateState:
  "position (updateStateFromResponse r s) =
     ((case headers r STREAM_OFFSET_HEADER of
         None \<Rightarrow> offset s | Some v \<Rightarrow> if v = [] then offset s else v),
      (case headers r STREAM_CURSOR_HEADER of
         None \<Rightarrow> cursor s | Some v \<Rightarrow> if v = [] then cursor s else Some v),
      headers r STREAM_UP_TO_DATE_HEADER \<noteq> None)"
  by (simp add: updateStateFromResponse_def position_def Let_def split: option.splits)

lemma position_pull_long_poll:
  assumes "\<not> aborted s" "fetch_next i = Inr r"
  shows "position (snd (snd (pull_long_poll i (st, s)))) = position (updateStateFromResponse r s)"
proof -
  obtain st2 s2 where r: "run_ops (interleaved i) (st, log_call (FetchNext (offset s) (cursor s)) s) = (st2, s2)"
    by (cases "run_ops (interleaved i) (st, log_call (FetchNext (offset s) (cursor s)) s)")
  have "position s2 = position s"
    using position_run_ops[of "interleaved i" "(st, log_call (FetchNext (offset s) (cursor s)) s)"] r
    by (simp add: log_call_def)
  then have h: "offset s2 = offset s" "cursor s2 = cursor s"
    by (simp_all add: position_def)
  have "position (updateStateFromResponse r s2) = position (updateStateFromResponse r s)"
    unfolding position_updateState h ..
  then show ?thesis using assms r
    by (simp add: pull_long_poll_def Let_def position_after_emit split: sum.splits)
qed

text \<open>
  Claim C3, as the code has it. From a long-poll continuation response the session takes
  the offset and the cursor only when the header is present (and not empty), and keeps
  its value otherwise; the caught-up flag is set to whether the up-to-date header is
  present, so a response without that header sets it to false. A long-poll pull leaves
  the session at exactly that position, whatever happens after the response arrived.
\<close>

theorem position_from_response_headers:
  "position (updateStateFromResponse r s) =
     ((case headers r STREAM_OFFSET_HEADER of
         None \<Rightarrow> offset s | Some v \<Rightarrow> if v = [] then offset s else v),
      (case headers r STREAM_CURSOR_HEADER of
         None \<Rightarrow> cursor s | Some v \<Rightarrow> if v = [] then cursor s else Some v),
      headers r STREAM_UP_TO_DATE_HEADER \<noteq> None) \<and>
   ((firstResponseConsumed st \<or> firstResponse s = None) \<and> shouldContinueLive s \<and>
    \<not> (live s = LiveSSE \<and> startSSE s) \<and> \<not> aborted s \<and> fetch_next i = Inr r \<longrightarrow>
      position (snd (pull i (st, s))) = position (updateStateFromResponse r s))"
proof -
  have "position (snd (pull i (st, s))) = position (updateStateFromResponse r s)"
    if h: "firstResponseConsumed st \<or> firstResponse s = None" "shouldContinueLive s"
      "\<not> (live s = LiveSSE \<and> startSSE s)" "\<not> aborted s" "fetch_next i = Inr r"
  proof -
    have t: "pull_try i (st, s) = pull_long_poll i (st, s)"
      using h by (auto simp: pull_try_def)
    obtain x st1 s1 where p: "pull_long_poll i (st, s) = (x, st1, s1)"
      by (cases "pull_long_poll i (st, s)")
    have "position s1 = position (updateStateFromResponse r s)"
      using position_pull_long_poll[OF h(4) h(5), of st] p by simp
    then show ?thesis using t p
      by (cases x) (simp_all add: pull_def position_pull_catch)
  qed
  then show ?thesis using position_updateState[of r s] by blast
qed

theorem position_from_response_headers_witness:
  "position (snd (pull example_input
      (new_ByteStream\<lparr>firstResponseConsumed := True\<rparr>,
       (new_StreamResponse example_config)\<lparr>firstResponse := None\<rparr>))) = (''5'', Some ''c1'', False)"
  using position_from_response_headers[of example_continuation
      "(new_StreamResponse example_config)\<lparr>firstResponse := None\<rparr>"
      "new_ByteStream\<lparr>firstResponseConsumed := True\<rparr>" example_input]
  by (simp add: example_input_def example_config_def new_StreamResponse_def shouldContinueLive_def
      new_ByteStream_def example_continuation_def)

theorem upToDate_reset_without_header:
  "upToDate (new_StreamResponse example_config) \<and>
   headers example_continuation STREAM_UP_TO_DATE_HEADER = None \<and>
   \<not> upToDate (updateStateFromResponse example_continuation (new_StreamResponse example_config))"
  by (simp add: example_continuation_def example_config_def new_StreamResponse_def
      updateStateFromResponse_def)

subsection \<open>The first pull\<close>

lemma firstResponse_lifecycle [simp]:
  "firstResponse (markClosed s) = firstResponse s"
  "firstResponse (markConsuming s) = firstResponse s"
  "firstResponse (cancel s) = firstResponse s"
  "firstResponse (source_cancel s) = firstResponse s"
  by (simp_all add: markClosed_def markConsuming_def cancel_def source_cancel_def)

lemma position_lifecycle [simp]:
  "position (markConsuming s) = position s"
  "position (source_cancel s) = position s"
  by (simp_all add: markConsuming_def source_cancel_def)

lemma list_update_all:
  "\<forall>x\<in>set xs. Q x \<Longrightarrow> Q y \<Longrightarrow> \<forall>x\<in>set (xs[k := y]). Q x"
  using set_update_subset_insert[of xs k y] by blast

lemma session_step_before_first_pull:
  assumes "\<forall>k i. op \<noteq> Pull k i"
    and "firstResponse s = Some r" and "position s = p"
    and "\<forall>st\<in>set sts. \<not> firstResponseConsumed st \<and> queue st = [] \<and> \<not> closeRequested st"
  shows "firstResponse (fst (session_step op (s, sts))) = Some r \<and>
         position (fst (session_step op (s, sts))) = p \<and>
         (\<forall>st\<in>set (snd (session_step op (s, sts))).
            \<not> firstResponseConsumed st \<and> queue st = [] \<and> \<not> closeRequested st)"
proof (cases op)
  case (Pull k i)
  with assms(1) show ?thesis by simp
next
  case (CancelStream k)
  show ?thesis
  proof (cases "k < length sts \<and> stream_state (sts ! k) = Readable")
    case True
    let ?x = "(sts ! k)\<lparr>queue := [], stream_state := StreamClosed\<rparr>"
    from True assms(4) have "\<not> firstResponseConsumed ?x \<and> queue ?x = [] \<and> \<not> closeRequested ?x"
      by simp
    from list_update_all[of sts _ ?x k, OF assms(4) this] True assms(2,3) CancelStream
    show ?thesis by (simp add: stream_cancel_def)
  next
    case False
    with assms(2-4) CancelStream show ?thesis
      by (simp add: stream_cancel_def)
  qed
next
  case CreateByteStream
  with assms(2-4) show ?thesis
    by (simp add: createByteStream_def new_ByteStream_def)
next
  case SetStopAfterUpToDate
  with assms(2-4) show ?thesis by simp
next
  case CancelCall
  with assms(2-4) show ?thesis by simp
next
  case AbortSignal
  with assms(2-4) show ?thesis by simp
next
  case EndAccumulating
  with assms(2-4) show ?thesis by simp
qed

lemma history_before_first_pull:
  assumes "\<forall>k i. Pull k i \<notin> set ops"
  shows "firstResponse (fst (history config ops)) = Some (config_firstResponse config) \<and>
         position (fst (history config ops)) =
           (config_initialOffset config, config_initialCursor config, config_initialUpToDate config) \<and>
         (\<forall>st\<in>set (snd (history config ops)).
            \<not> firstResponseConsumed st \<and> queue st = [] \<and> \<not> closeRequested st)"
  using assms
proof (induction ops rule: rev_induct)
  case Nil
  show ?case by (simp add: history_Nil new_StreamResponse_def position_def)
next
  case (snoc op ops)
  obtain s sts where h: "history config ops = (s, sts)"
    by (cases "history config ops")
  from snoc.prems have n: "\<forall>k i. op \<noteq> Pull k i" and m: "\<forall>k i. Pull k i \<notin> set ops"
    by auto
  from snoc.IH[OF m] h have ih: "firstResponse s = Some (config_firstResponse config)"
    "position s = (config_initialOffset config, config_initialCursor config, config_initialUpToDate config)"
    "\<forall>st\<in>set sts. \<not> firstResponseConsumed st \<and> queue st = [] \<and> \<not> closeRequested st"
    by simp_all
  from session_step_before_first_pull[OF n ih] show ?case
    by (simp add: history_snoc h)
qed

lemma ext_step_keeps_stream:
  "op \<noteq> StreamCancel \<Longrightarrow>
   fst (ext_step op (st, s)) = st \<and> position (snd (ext_step op (st, s))) = position s \<and>
   shouldContinueLive (snd (ext_step op (st, s))) = shouldContinueLive s \<and>
   firstResponse (snd (ext_step op (st, s))) = firstResponse s"
  by (cases op) (simp_all add: shouldContinueLive_def cancel_def markClosed_def)

lemma run_ops_keeps_stream:
  "StreamCancel \<notin> set ops \<Longrightarrow>
   fst (run_ops ops (st, s)) = st \<and> position (snd (run_ops ops (st, s))) = position s \<and>
   shouldContinueLive (snd (run_ops ops (st, s))) = shouldContinueLive s \<and>
   firstResponse (snd (run_ops ops (st, s))) = firstResponse s"
proof (induction ops arbitrary: s)
  case Nil
  show ?case by (simp add: run_ops_def)
next
  case (Cons op ops)
  from Cons.prems have n: "op \<noteq> StreamCancel" "StreamCancel \<notin> set ops"
    by auto
  obtain st1 s1 where e: "ext_step op (st, s) = (st1, s1)"
    by (cases "ext_step op (st, s)")
  from ext_step_keeps_stream[OF n(1), of st s] e
  have k: "st1 = st" "position s1 = position s" "shouldContinueLive s1 = shouldContinueLive s"
    "firstResponse s1 = firstResponse s"
    by simp_all
  have r: "run_ops (op # ops) (st, s) = run_ops ops (st, s1)"
    by (simp add: run_ops_def e k(1))
  show ?case
    unfolding r using Cons.IH[OF n(2), of s1] k(2-4) by simp
qed

lemma after_first_emits:
  assumes "can_close_or_enqueue st"
  shows "fst (after_first d (st, s)) = None \<and>
         queue (fst (snd (after_first d (st, s)))) =
           queue st @ [ByteChunk d (offset s) (cursor s) (upToDate s)] \<and>
         firstResponse (snd (snd (after_first d (st, s)))) = firstResponse s"
  using assms
  by (simp add: after_first_def enqueue_current_def controller_enqueue_def close_and_return_def
      controller_close_def can_close_or_enqueue_def markClosed_def)

lemma queue_pull_catch: "queue st = [] \<Longrightarrow> queue (fst (pull_catch e (st, s))) = []"
  by (simp add: pull_catch_def controller_close_def controller_error_def split: sum.splits)

lemma firstResponse_pull_catch: "firstResponse (snd (pull_catch e (st, s))) = firstResponse s"
  by (simp add: pull_catch_def markClosed_def markError_def split: sum.splits)

lemma first_pull:
  assumes fr: "firstResponse s = Some r" "\<not> firstResponseConsumed st"
    and st: "can_close_or_enqueue st" "queue st = []"
    and ops: "StreamCancel \<notin> set (interleaved i)"
  shows "queue (fst (pull i (st, s))) =
           (case body r of
              None \<Rightarrow> [ByteChunk [] (offset s) (cursor s) (upToDate s)]
            | Some rs \<Rightarrow>
                (case read_all rs [] of
                   Inl e \<Rightarrow> []
                 | Inr chunks \<Rightarrow> [ByteChunk (concat chunks) (offset s) (cursor s) (upToDate s)])) \<and>
         firstResponse (snd (pull i (st, s))) = None"
proof -
  let ?st = "st\<lparr>firstResponseConsumed := True\<rparr>"
  let ?s = "s\<lparr>firstResponse := None\<rparr>"
  have t: "pull_try i (st, s) = pull_first i r (?st, ?s)"
    using fr by (simp add: pull_try_def)
  have c: "can_close_or_enqueue ?st" "queue ?st = []"
    using st by (simp_all add: can_close_or_enqueue_def)
  show ?thesis
  proof (cases "body r")
    case None
    then have "pull_first i r (?st, ?s) = after_first [] (?st, ?s)"
      by (simp add: pull_first_def)
    with after_first_emits[OF c(1), of "[]" ?s] t c(2) None show ?thesis
      by (cases "after_first [] (?st, ?s)") (simp add: pull_def)
  next
    case (Some rs)
    obtain s1 where r1: "run_ops (interleaved i) (?st, ?s) = (?st, s1)"
      using run_ops_keeps_stream[OF ops, of ?st ?s]
      by (cases "run_ops (interleaved i) (?st, ?s)") auto
    have s1: "position s1 = position s" "firstResponse s1 = None"
      using run_ops_keeps_stream[OF ops, of ?st ?s] r1 by (simp_all add: position_def)
    show ?thesis
    proof (cases "read_all rs []")
      case (Inl e)
      then have "pull_try i (st, s) = (Some e, ?st, s1)"
        using t Some r1 by (simp add: pull_first_def)
      then show ?thesis
        using Some Inl queue_pull_catch[OF c(2), of e s1] firstResponse_pull_catch[of e ?st s1] s1
        by (simp add: pull_def)
    next
      case (Inr chunks)
      then have "pull_try i (st, s) = after_first (concat chunks) (?st, s1)"
        using t Some r1 by (simp add: pull_first_def)
      with after_first_emits[OF c(1), of "concat chunks" s1] c(2) s1 Some Inr show ?thesis
        by (cases "after_first (concat chunks) (?st, s1)") (simp add: pull_def position_def)
    qed
  qed
qed

text \<open>
  Claim C7. Before any pull the session holds the position of the initial response
  headers. The first pull of the session (on a stream that has not been cancelled, and
  not cancelled during the pull) reads the initial body to its end and puts exactly one
  chunk into the queue: the concatenation of everything read, with the initial position;
  for a response without a body the chunk is empty, with the same position. If the read
  fails part way nothing is put into the queue. The first response is released either way.
\<close>

theorem first_pull_emits_initial_body:
  assumes "\<forall>k i. Pull k i \<notin> set ops"
    and "history config ops = (s, sts)"
    and "k < length sts" and "stream_state (sts ! k) = Readable"
    and "StreamCancel \<notin> set (interleaved i)"
  shows "queue (fst (pull i (sts ! k, s))) =
           (case body (config_firstResponse config) of
              None \<Rightarrow>
                [ByteChunk [] (config_initialOffset config) (config_initialCursor config)
                   (config_initialUpToDate config)]
            | Some rs \<Rightarrow>
                (case read_all rs [] of
                   Inl e \<Rightarrow> []
                 | Inr chunks \<Rightarrow>
                     [ByteChunk (concat chunks) (config_initialOffset config)
                        (config_initialCursor config) (config_initialUpToDate config)])) \<and>
         firstResponse (snd (pull i (sts ! k, s))) = None"
proof -
  from history_before_first_pull[OF assms(1), of config] assms(2)
  have h: "firstResponse s = Some (config_firstResponse config)"
    "position s = (config_initialOffset config, config_initialCursor config, config_initialUpToDate config)"
    "\<forall>st\<in>set sts. \<not> firstResponseConsumed st \<and> queue st = [] \<and> \<not> closeRequested st"
    by simp_all
  from h(3) assms(3) have k: "\<not> firstResponseConsumed (sts ! k)" "queue (sts ! k) = []"
    "\<not> closeRequested (sts ! k)"
    by simp_all
  from k(3) assms(4) have c: "can_close_or_enqueue (sts ! k)"
    by (simp add: can_close_or_enqueue_def)
  from h(2) have p: "offset s = config_initialOffset config" "cursor s = config_initialCursor config"
    "upToDate s = config_initialUpToDate config"
    by (simp_all add: position_def)
  from first_pull[OF h(1) k(1) c k(2) assms(5)] show ?thesis
    unfolding p .
qed

theorem first_pull_emits_initial_body_witness:
  "history example_config [SetStopAfterUpToDate, CreateByteStream] =
     ((new_StreamResponse example_config)\<lparr>state := Consuming, stopAfterUpToDate := True\<rparr>,
      [new_ByteStream]) \<and>
   queue (fst (pull example_input
      (new_ByteStream,
       (new_StreamResponse example_config)\<lparr>state := Consuming, stopAfterUpToDate := True\<rparr>))) =
     [ByteChunk (utf8 ''[1,2]'') ''5'' (Some ''c1'') True]"
proof -
  have h: "history example_config [SetStopAfterUpToDate, CreateByteStream] =
     ((new_StreamResponse example_config)\<lparr>state := Consuming, stopAfterUpToDate := True\<rparr>,
      [new_ByteStream])"
    by (simp add: history_def createByteStream_def markConsuming_def new_StreamResponse_def)
  have "\<forall>k i. Pull k i \<notin> set [SetStopAfterUpToDate, CreateByteStream]"
    by simp
  from first_pull_emits_initial_body[OF this h, of 0 example_input] h show ?thesis
    by (simp add: new_ByteStream_def example_input_def example_config_def example_response_def
        utf8_def)
qed

subsection \<open>A pull that fails\<close>

lemma aborted_lifecycle [simp]:
  "aborted (markClosed s) = aborted s"
  "aborted (log_call c s) = aborted s"
  "aborted (updateStateFromResponse r s) = aborted s"
  "aborted (cancel s)"
  "aborted (source_cancel s)"
  by (simp_all add: markClosed_def log_call_def updateStateFromResponse_def Let_def cancel_def
      source_cancel_def split: option.splits)

lemma writable_or_cancelled_update [simp]:
  "writable_or_cancelled st (markClosed s) = writable_or_cancelled st s"
  "writable_or_cancelled st (log_call c s) = writable_or_cancelled st s"
  "writable_or_cancelled st (updateStateFromResponse r s) = writable_or_cancelled st s"
  "writable_or_cancelled st (s\<lparr>offset := x, cursor := y, upToDate := z\<rparr>) = writable_or_cancelled st s"
  "writable_or_cancelled st (s\<lparr>firstResponse := f\<rparr>) = writable_or_cancelled st s"
  "writable_or_cancelled st (s\<lparr>sseIterator := it\<rparr>) = writable_or_cancelled st s"
  "writable_or_cancelled (st\<lparr>firstResponseConsumed := b\<rparr>) s = writable_or_cancelled st s"
  by (simp_all add: writable_or_cancelled_def)

lemma writable_or_cancelled_ext_step:
  "writable_or_cancelled st s \<Longrightarrow>
   writable_or_cancelled (fst (ext_step op (st, s))) (snd (ext_step op (st, s)))"
  by (cases op) (auto simp: writable_or_cancelled_def stream_cancel_def)

lemma writable_or_cancelled_run_ops:
  "writable_or_cancelled st s \<Longrightarrow>
   writable_or_cancelled (fst (run_ops ops (st, s))) (snd (run_ops ops (st, s)))"
proof (induction ops arbitrary: st s)
  case Nil
  then show ?case by (simp add: run_ops_def)
next
  case (Cons op ops)
  obtain st1 s1 where e: "ext_step op (st, s) = (st1, s1)"
    by (cases "ext_step op (st, s)")
  from writable_or_cancelled_ext_step[OF Cons.prems, of op] e
  have "writable_or_cancelled st1 s1" by simp
  from Cons.IH[OF this] show ?case
    by (simp add: run_ops_def e)
qed

lemma throws_close_and_return:
  "writable_or_cancelled st s \<Longrightarrow> close_and_return (st, s) = (Some e, st1, s1) \<Longrightarrow>
   writable_or_cancelled st1 s1"
  by (auto simp: close_and_return_def split: sum.splits)

lemma writable_or_cancelled_enqueue:
  "writable_or_cancelled st s \<Longrightarrow> controller_enqueue c st = Inr st' \<Longrightarrow>
   writable_or_cancelled st' s"
  by (auto simp: controller_enqueue_def writable_or_cancelled_def split: if_splits)

lemma throws_after_first:
  assumes "writable_or_cancelled st s" "after_first d (st, s) = (Some e, st1, s1)"
  shows "writable_or_cancelled st1 s1"
proof (cases "enqueue_current d (st, s)")
  case (Inl x)
  with assms show ?thesis by (simp add: after_first_def)
next
  case (Inr st')
  then have w: "writable_or_cancelled st' s"
    using writable_or_cancelled_enqueue[OF assms(1)] by (simp add: enqueue_current_def)
  from assms(2) Inr have "close_and_return (st', s) = (Some e, st1, s1)"
    by (simp add: after_first_def split: if_splits)
  from throws_close_and_return[OF w this] show ?thesis .
qed

lemma throws_after_emit:
  "writable_or_cancelled st s \<Longrightarrow> after_emit (st, s) = (Some e, st1, s1) \<Longrightarrow>
   writable_or_cancelled st1 s1"
  by (auto simp: after_emit_def split: if_splits dest: throws_close_and_return)

lemma throws_pull_first:
  assumes "writable_or_cancelled st s" "pull_first i r (st, s) = (Some e, st1, s1)"
  shows "writable_or_cancelled st1 s1"
proof (cases "body r")
  case None
  with assms throws_after_first show ?thesis by (simp add: pull_first_def)
next
  case (Some rs)
  obtain st2 s2 where r: "run_ops (interleaved i) (st, s) = (st2, s2)"
    by (cases "run_ops (interleaved i) (st, s)")
  from writable_or_cancelled_run_ops[OF assms(1), of "interleaved i"] r
  have w: "writable_or_cancelled st2 s2" by simp
  show ?thesis
  proof (cases "read_all rs []")
    case (Inl x)
    with assms(2) Some r w show ?thesis by (simp add: pull_first_def)
  next
    case (Inr chunks)
    with assms(2) Some r have "after_first (concat chunks) (st2, s2) = (Some e, st1, s1)"
      by (simp add: pull_first_def)
    from throws_after_first[OF w this] show ?thesis .
  qed
qed

lemma throws_pull_sse:
  assumes "writable_or_cancelled st s" "pull_sse i (st, s) = (Some e, st1, s1)"
  shows "writable_or_cancelled st1 s1"
proof (cases "start_iterator i (if sseIterator s = None
                                then log_call (StartSSE (offset s) (cursor s)) s else s)")
  case (Inl x)
  with assms show ?thesis by (auto simp: pull_sse_def)
next
  case (Inr s0)
  have w0: "writable_or_cancelled st s0"
    using Inr assms(1)
    by (auto simp: start_iterator_def writable_or_cancelled_def log_call_def
        split: option.splits sum.splits if_splits)
  obtain st2 s2 where r: "run_ops (interleaved i) (st, s0) = (st2, s2)"
    by (cases "run_ops (interleaved i) (st, s0)")
  from writable_or_cancelled_run_ops[OF w0, of "interleaved i"] r
  have w: "writable_or_cancelled st2 s2" by simp
  show ?thesis
  proof (cases "sse_next i")
    case IterDone
    with assms(2) Inr r have "close_and_return (st2, s2) = (Some e, st1, s1)"
      by (simp add: pull_sse_def)
    from throws_close_and_return[OF w this] show ?thesis .
  next
    case (IterThrows x)
    with assms(2) Inr r w show ?thesis by (simp add: pull_sse_def)
  next
    case (IterValue chunk)
    let ?s3 = "s2\<lparr>offset := chunk_offset chunk, cursor := chunk_cursor chunk,
                   upToDate := chunk_upToDate chunk\<rparr>"
    have w3: "writable_or_cancelled st2 ?s3" using w by simp
    show ?thesis
    proof (cases "controller_enqueue chunk st2")
      case (Inl x)
      with assms(2) Inr r IterValue w3 show ?thesis by (simp add: pull_sse_def Let_def)
    next
      case (Inr st3)
      from writable_or_cancelled_enqueue[OF w3 Inr] have w4: "writable_or_cancelled st3 ?s3" .
      from assms(2) \<open>start_iterator i _ = Inr s0\<close> r IterValue Inr
      have "after_emit (st3, ?s3) = (Some e, st1, s1)"
        by (simp add: pull_sse_def Let_def)
      from throws_after_emit[OF w4 this] show ?thesis .
    qed
  qed
qed

lemma throws_pull_long_poll:
  assumes "writable_or_cancelled st s" "pull_long_poll i (st, s) = (Some e, st1, s1)"
  shows "writable_or_cancelled st1 s1"
proof (cases "aborted s")
  case True
  with assms(2) have "close_and_return (st, s) = (Some e, st1, s1)"
    by (simp add: pull_long_poll_def)
  from throws_close_and_return[OF assms(1) this] show ?thesis .
next
  case False
  obtain st2 s2 where r: "run_ops (interleaved i) (st, log_call (FetchNext (offset s) (cursor s)) s) = (st2, s2)"
    by (cases "run_ops (interleaved i) (st, log_call (FetchNext (offset s) (cursor s)) s)")
  have "writable_or_cancelled st (log_call (FetchNext (offset s) (cursor s)) s)"
    using assms(1) by simp
  from writable_or_cancelled_run_ops[OF this, of "interleaved i"] r
  have w: "writable_or_cancelled st2 s2" by simp
  show ?thesis
  proof (cases "fetch_next i")
    case (Inl x)
    with assms(2) False r w show ?thesis by (simp add: pull_long_poll_def)
  next
    case (Inr response)
    let ?s3 = "updateStateFromResponse response s2"
    have w3: "writable_or_cancelled st2 ?s3" using w by simp
    show ?thesis
    proof (cases "arrayBuffer response")
      case (Inl x)
      with assms(2) False r Inr w3 show ?thesis by (simp add: pull_long_poll_def Let_def)
    next
      case b: (Inr d)
      show ?thesis
      proof (cases "enqueue_current d (st2, ?s3)")
        case (Inl x)
        with assms(2) False r Inr b w3 show ?thesis by (simp add: pull_long_poll_def Let_def)
      next
        case q: (Inr st3)
        then have w4: "writable_or_cancelled st3 ?s3"
          using writable_or_cancelled_enqueue[OF w3] by (simp add: enqueue_current_def)
        from assms(2) False r Inr b q have "after_emit (st3, ?s3) = (Some e, st1, s1)"
          by (simp add: pull_long_poll_def Let_def)
        from throws_after_emit[OF w4 this] show ?thesis .
      qed
    qed
  qed
qed

lemma throws_pull_try:
  assumes "can_close_or_enqueue st" "pull_try i (st, s) = (Some e, st1, s1)"
  shows "writable_or_cancelled st1 s1"
proof -
  have w: "writable_or_cancelled st s"
    using assms(1) by (simp add: writable_or_cancelled_def can_close_or_enqueue_def)
  show ?thesis
  proof (cases "if firstResponseConsumed st then None else firstResponse s")
    case (Some response)
    with assms(2) have "pull_first i response
        (st\<lparr>firstResponseConsumed := True\<rparr>, s\<lparr>firstResponse := None\<rparr>) = (Some e, st1, s1)"
      by (simp add: pull_try_def)
    moreover have "writable_or_cancelled (st\<lparr>firstResponseConsumed := True\<rparr>) (s\<lparr>firstResponse := None\<rparr>)"
      using w by simp
    ultimately show ?thesis using throws_pull_first by blast
  next
    case None
    show ?thesis
    proof (cases "shouldContinueLive s")
      case True
      show ?thesis
      proof (cases "live s = LiveSSE \<and> startSSE s")
        case sse: True
        with assms(2) None \<open>shouldContinueLive s\<close> have "pull_sse i (st, s) = (Some e, st1, s1)"
          by (simp add: pull_try_def)
        from throws_pull_sse[OF w this] show ?thesis .
      next
        case lp: False
        with assms(2) None \<open>shouldContinueLive s\<close> have "pull_long_poll i (st, s) = (Some e, st1, s1)"
          by (simp add: pull_try_def)
        from throws_pull_long_poll[OF w this] show ?thesis .
      qed
    next
      case False
      with assms(2) None have "close_and_return (st, s) = (Some e, st1, s1)"
        by (simp add: pull_try_def)
      from throws_close_and_return[OF w this] show ?thesis .
    qed
  qed
qed

text \<open>
  Claim C6. Let a pull be made on a stream that accepts chunks, and let its \<open>try\<close> block
  throw. If the session's signal is aborted when the error is caught, the session is
  closed by \<open>#markClosed\<close>: no rejecting call is made, the promise of a session that had
  not been rejected before is fulfilled, and the stream ends closed, never errored. If the
  signal is not aborted, the session is closed by \<open>#markError\<close>, which rejects the promise
  of a session that was still open, and the stream is errored with what was thrown.
\<close>

theorem failed_pull_under_cancellation:
  assumes "can_close_or_enqueue st" and "pull_try i (st, s) = (Some err, st1, s1)"
  shows "state (snd (pull i (st, s))) = Closed \<and>
         (aborted s1 \<longrightarrow>
            clean_step s (snd (pull i (st, s))) \<and>
            closedCalls (snd (pull i (st, s))) =
              (if state s1 = Closed then closedCalls s1 else closedCalls s1 @ [Resolve]) \<and>
            (settled_once s \<and> (\<forall>e. closed s \<noteq> Rejected e) \<longrightarrow>
               closed (snd (pull i (st, s))) = Fulfilled) \<and>
            (closeRequested (fst (pull i (st, s))) \<or>
             stream_state (fst (pull i (st, s))) = StreamClosed) \<and>
            (\<forall>e. stream_state (fst (pull i (st, s))) \<noteq> Errored e)) \<and>
         (\<not> aborted s1 \<longrightarrow>
            closedCalls (snd (pull i (st, s))) =
              (if state s1 = Closed then closedCalls s1
               else closedCalls s1 @ [Reject (to_Error err)]) \<and>
            stream_state (fst (pull i (st, s))) = Errored err)"
proof -
  have p: "pull i (st, s) = pull_catch err (st1, s1)"
    using assms(2) by (simp add: pull_def)
  have w: "writable_or_cancelled st1 s1"
    using throws_pull_try[OF assms] .
  have c: "clean_step s s1"
    using clean_step_pull_try[of s i st] assms(2) by simp
  have st: "state (snd (pull i (st, s))) = Closed"
    unfolding p by (rule state_pull_catch)
  have a: "clean_step s (snd (pull i (st, s))) \<and>
           closedCalls (snd (pull i (st, s))) =
              (if state s1 = Closed then closedCalls s1 else closedCalls s1 @ [Resolve]) \<and>
           (closeRequested (fst (pull i (st, s))) \<or>
             stream_state (fst (pull i (st, s))) = StreamClosed) \<and>
           (\<forall>e. stream_state (fst (pull i (st, s))) \<noteq> Errored e)"
    if ab: "aborted s1"
  proof -
    have s': "snd (pull i (st, s)) = markClosed s1"
      unfolding p using ab by (simp add: pull_catch_def split: sum.splits)
    have "clean_step s (markClosed s1)" using c by (rule clean_step_markClosed)
    moreover have "closedCalls (markClosed s1) =
        (if state s1 = Closed then closedCalls s1 else closedCalls s1 @ [Resolve])"
      by (simp add: markClosed_def)
    moreover have "(closeRequested (fst (pull i (st, s))) \<or>
             stream_state (fst (pull i (st, s))) = StreamClosed) \<and>
           (\<forall>e. stream_state (fst (pull i (st, s))) \<noteq> Errored e)"
      unfolding p using ab w
      by (auto simp: pull_catch_def controller_close_def controller_error_def
          can_close_or_enqueue_def writable_or_cancelled_def)
    ultimately show ?thesis unfolding s' by simp
  qed
  have f: "closed (snd (pull i (st, s))) = Fulfilled"
    if ab: "aborted s1" and so: "settled_once s" and nr: "\<forall>e. closed s \<noteq> Rejected e"
  proof -
    let ?s' = "snd (pull i (st, s))"
    from a[OF ab] have cs: "clean_step s ?s'" by simp
    show ?thesis
    proof (cases "state s = Closed")
      case True
      with cs have e: "closedCalls ?s' = closedCalls s" by (simp add: clean_step_def)
      from True so obtain x where x: "closedCalls s = [x]"
        by (cases "closedCalls s") (auto simp: settled_once_def)
      with nr have "x = Resolve" by (cases x) (simp_all add: closed_def)
      with e x show ?thesis by (simp add: closed_def)
    next
      case False
      with so have "closedCalls s = []" by (simp add: settled_once_def)
      with cs st False show ?thesis by (auto simp: clean_step_def closed_def)
    qed
  qed
  have b: "closedCalls (snd (pull i (st, s))) =
              (if state s1 = Closed then closedCalls s1
               else closedCalls s1 @ [Reject (to_Error err)]) \<and>
           stream_state (fst (pull i (st, s))) = Errored err"
    if na: "\<not> aborted s1"
    unfolding p using na w
    by (simp add: pull_catch_def markError_def controller_error_def writable_or_cancelled_def)
  from st a f b show ?thesis by blast
qed

theorem failed_pull_under_cancellation_witness:
  "(let p = pull (example_input\<lparr>interleaved := [Abort], fetch_next := Inl (ErrorObject ''AbortError'')\<rparr>)
              (new_ByteStream\<lparr>firstResponseConsumed := True\<rparr>,
               (new_StreamResponse example_config)\<lparr>state := Consuming, firstResponse := None\<rparr>)
    in state (snd p) = Closed \<and> closedCalls (snd p) = [Resolve] \<and> closed (snd p) = Fulfilled \<and>
       stream_state (fst p) = StreamClosed) \<and>
   (let p = pull (example_input\<lparr>fetch_next := Inl (ErrorObject ''network'')\<rparr>)
              (new_ByteStream\<lparr>firstResponseConsumed := True\<rparr>,
               (new_StreamResponse example_config)\<lparr>state := Consuming, firstResponse := None\<rparr>)
    in state (snd p) = Closed \<and> closedCalls (snd p) = [Reject (ErrorObject ''network'')] \<and>
       stream_state (fst p) = Errored (ErrorObject ''network''))"
proof -
  let ?st = "new_ByteStream\<lparr>firstResponseConsumed := True\<rparr>"
  let ?s = "(new_StreamResponse example_config)\<lparr>state := Consuming, firstResponse := None\<rparr>"
  let ?i = "example_input\<lparr>interleaved := [Abort], fetch_next := Inl (ErrorObject ''AbortError'')\<rparr>"
  let ?j = "example_input\<lparr>fetch_next := Inl (ErrorObject ''network'')\<rparr>"
  have c: "can_close_or_enqueue ?st"
    by (simp add: can_close_or_enqueue_def new_ByteStream_def)
  have l: "shouldContinueLive ?s" "live ?s = LiveLongPoll" "\<not> aborted ?s" "state ?s = Consuming"
    "closedCalls ?s = []"
    by (simp_all add: shouldContinueLive_def new_StreamResponse_def example_config_def)
  have ti: "pull_try ?i (?st, ?s) =
      (Some (ErrorObject ''AbortError''), ?st,
       (log_call (FetchNext (offset ?s) (cursor ?s)) ?s)\<lparr>aborted := True\<rparr>)"
    using l by (simp add: pull_try_def pull_long_poll_def run_ops_def new_ByteStream_def
        example_input_def)
  have tj: "pull_try ?j (?st, ?s) =
      (Some (ErrorObject ''network''), ?st, log_call (FetchNext (offset ?s) (cursor ?s)) ?s)"
    using l by (simp add: pull_try_def pull_long_poll_def run_ops_def new_ByteStream_def
        example_input_def)
  have so: "settled_once ?s" "\<forall>e. closed ?s \<noteq> Rejected e"
    using l by (simp_all add: settled_once_def closed_def)
  from failed_pull_under_cancellation[OF c ti] so l
  have a: "state (snd (pull ?i (?st, ?s))) = Closed"
    "closedCalls (snd (pull ?i (?st, ?s))) = [Resolve]"
    "closed (snd (pull ?i (?st, ?s))) = Fulfilled"
    "closeRequested (fst (pull ?i (?st, ?s))) \<or> stream_state (fst (pull ?i (?st, ?s))) = StreamClosed"
    by (simp_all add: log_call_def)
  have "pull ?i (?st, ?s) =
      pull_catch (ErrorObject ''AbortError'')
        (?st, (log_call (FetchNext (offset ?s) (cursor ?s)) ?s)\<lparr>aborted := True\<rparr>)"
    unfolding pull_def ti by simp
  then have "stream_state (fst (pull ?i (?st, ?s))) = StreamClosed"
    by (simp add: pull_catch_def controller_close_def can_close_or_enqueue_def
        new_ByteStream_def log_call_def)
  moreover
  from failed_pull_under_cancellation[OF c tj] l
  have "state (snd (pull ?j (?st, ?s))) = Closed"
    "closedCalls (snd (pull ?j (?st, ?s))) = [Reject (ErrorObject ''network'')]"
    "stream_state (fst (pull ?j (?st, ?s))) = Errored (ErrorObject ''network'')"
    by (simp_all add: log_call_def to_Error_def)
  ultimately show ?thesis using a by (simp add: Let_def)
qed

subsection \<open>Decoding ASCII\<close>

lemma lead_byte_ascii: "b \<le> 0x7F \<Longrightarrow> lead_byte d b = ([unat b], d)"
  by (simp add: lead_byte_def)

lemma utf8_bytes_ascii:
  "bytes_needed d = 0 \<Longrightarrow> \<forall>b\<in>set bs. b \<le> 0x7F \<Longrightarrow> utf8_bytes d bs = (map unat bs, d)"
  by (induction bs) (simp_all add: utf8_byte_def lead_byte_ascii)

lemma concat_utf16_small: "\<forall>c\<in>set cs. c < 0x10000 \<Longrightarrow> concat (map utf16 cs) = cs"
  by (induction cs) (simp_all add: utf16_def)

lemma unat_ascii: "(b :: 8 word) \<le> 0x7F \<Longrightarrow> unat b \<le> 127"
  by (simp add: word_le_nat_alt)

lemma decode_ascii:
  assumes "\<forall>b\<in>set bs. b \<le> 0x7F" "\<not> do_not_flush d"
  shows "fst (decode False bs d) = map unat bs"
proof -
  have u: "utf8_bytes (new_TextDecoder\<lparr>do_not_flush := False\<rparr>) bs =
      (map unat bs, new_TextDecoder\<lparr>do_not_flush := False\<rparr>)"
    using assms(1) by (intro utf8_bytes_ascii) (simp_all add: new_TextDecoder_def)
  have small: "\<forall>c\<in>set (map unat bs). c \<le> 127"
    using assms(1) unat_ascii by auto
  then have s: "\<forall>c\<in>set (map unat bs). c < 0x10000" by auto
  let ?d = "new_TextDecoder\<lparr>do_not_flush := False\<rparr>"
  obtain cps d4 where sb: "strip_bom (map unat bs) ?d = (cps, d4)"
    by (cases "strip_bom (map unat bs) ?d")
  have cps: "cps = map unat bs"
  proof (cases bs)
    case Nil
    with sb show ?thesis by (simp add: strip_bom_def new_TextDecoder_def)
  next
    case (Cons b bs')
    with small have "unat b \<le> 127" by simp
    then have "unat b \<noteq> 0xFEFF" by simp
    with Cons sb show ?thesis by (auto simp: strip_bom_def new_TextDecoder_def)
  qed
  have d0: "(if do_not_flush d then d else new_TextDecoder) = new_TextDecoder"
    using assms(2) by simp
  have e: "utf8_end ?d = ([], ?d)"
    by (simp add: utf8_end_def new_TextDecoder_def)
  have "decode False bs d = (concat (map utf16 cps), d4)"
    unfolding decode_def d0 Let_def u using sb by (simp add: e)
  then show ?thesis
    unfolding cps using concat_utf16_small[OF s] by simp
qed

lemma decode_12: "fst (decode False (utf8 ''[1,2]'') new_TextDecoder) = str ''[1,2]''"
proof -
  have "\<forall>b\<in>set (utf8 ''[1,2]''). b \<le> 0x7F" by (simp add: utf8_def)
  moreover have "\<not> do_not_flush new_TextDecoder" by (simp add: new_TextDecoder_def)
  ultimately have "fst (decode False (utf8 ''[1,2]'') new_TextDecoder) = map unat (utf8 ''[1,2]'')"
    by (rule decode_ascii)
  then show ?thesis by (simp add: utf8_def str_def)
qed

lemma parse_12: "parseJsonChunk (str ''[1,2]'') = Inr [JNumber 1 0, JNumber 2 0]"
  by (simp add: chunk_eval)

lemma decode_records_12:
  "data chunk = utf8 ''[1,2]'' \<Longrightarrow>
   \<exists>dec'. decode_records chunk new_TextDecoder = Inr ([JNumber 1 0, JNumber 2 0], dec')"
  using decode_12 parse_12
  by (cases "decode False (utf8 ''[1,2]'') new_TextDecoder")
     (simp add: decode_records_def utf8_def)

subsection \<open>The structured-mode guard\<close>

lemma ensureJsonMode_message: "\<not> isJsonMode s \<Longrightarrow> ensureJsonMode s = Inl (invalid_mode_error s)"
  by (simp add: ensureJsonMode_def invalid_mode_error_def)

lemma ensureJsonMode_passes: "isJsonMode s \<Longrightarrow> ensureJsonMode s = Inr ()"
  by (simp add: ensureJsonMode_def)

text \<open>
  Claim C4. On a session that is not in JSON mode, \<open>json()\<close>, \<open>jsonStream()\<close> and
  \<open>subscribeJson()\<close> fail at the call with the error of \<open>#ensureJsonMode\<close>, a
  \<open>DurableStreamError\<close> whose message names the content type of the session: the session
  is left exactly as it was (still holding its unread first response, no byte stream
  created, no call made to the transport) and no input from the outside is used. On a
  session in JSON mode the guard passes and each method goes on to create its byte
  stream.
\<close>

theorem json_methods_check_mode_first:
  "(\<not> isJsonMode s \<longrightarrow>
      json ins s = Some (Inl (invalid_mode_error s), s, ins) \<and>
      jsonStream s = (Inl (invalid_mode_error s), s) \<and>
      subscribeJson evs s = Inl (invalid_mode_error s, s)) \<and>
   (isJsonMode s \<longrightarrow>
      ensureJsonMode s = Inr () \<and>
      jsonStream s = (Inr new_ByteStream, markConsuming s) \<and>
      subscribeJson evs s = Inr (run_subscription json_batch new_TextDecoder evs s)) \<and>
   invalid_mode_error s =
     DurableStreamError
       (''JSON methods are only valid for JSON-mode streams. Content-Type is '' @ [CHR 0x22] @
        (case contentType s of None \<Rightarrow> ''undefined'' | Some t \<Rightarrow> t) @ [CHR 0x22] @
        '' and json hint was not set.'')
       ''BAD_REQUEST''"
proof -
  have a: "json ins s = Some (Inl (invalid_mode_error s), s, ins) \<and>
      jsonStream s = (Inl (invalid_mode_error s), s) \<and>
      subscribeJson evs s = Inl (invalid_mode_error s, s)" if "\<not> isJsonMode s"
    using ensureJsonMode_message[OF that]
    by (simp add: json_def jsonStream_def subscribeJson_def)
  have b: "ensureJsonMode s = Inr () \<and>
      jsonStream s = (Inr new_ByteStream, markConsuming s) \<and>
      subscribeJson evs s = Inr (run_subscription json_batch new_TextDecoder evs s)"
    if "isJsonMode s"
    using ensureJsonMode_passes[OF that]
    by (simp add: jsonStream_def subscribeJson_def createByteStream_def)
  have c: "invalid_mode_error s =
     DurableStreamError
       (''JSON methods are only valid for JSON-mode streams. Content-Type is '' @ [CHR 0x22] @
        (case contentType s of None \<Rightarrow> ''undefined'' | Some t \<Rightarrow> t) @ [CHR 0x22] @
        '' and json hint was not set.'')
       ''BAD_REQUEST''"
    by (simp add: invalid_mode_error_def show_contentType_def)
  from a b c show ?thesis by blast
qed

theorem json_methods_check_mode_first_witness:
  \<open>json [example_input]
      ((new_StreamResponse example_config)\<lparr>isJsonMode := False, contentType := Some ''text/plain''\<rparr>) =
     Some (Inl (DurableStreamError
                  ''JSON methods are only valid for JSON-mode streams. Content-Type is "text/plain" and json hint was not set.''
                  ''BAD_REQUEST''),
           (new_StreamResponse example_config)\<lparr>isJsonMode := False, contentType := Some ''text/plain''\<rparr>,
           [example_input]) \<and>
   jsonStream (new_StreamResponse example_config) =
     (Inr new_ByteStream, (new_StreamResponse example_config)\<lparr>state := Consuming\<rparr>)\<close>
  using json_methods_check_mode_first[of
      "(new_StreamResponse example_config)\<lparr>isJsonMode := False, contentType := Some ''text/plain''\<rparr>"
      "[example_input]" "[]"]
    json_methods_check_mode_first[of "new_StreamResponse example_config" "[]" "[]"]
  by (simp add: new_StreamResponse_def example_config_def markConsuming_def)

subsection \<open>Accumulating the records\<close>

lemma after_first_stops:
  assumes "can_close_or_enqueue st" "\<not> shouldContinueLive s"
  shows "after_first d (st, s) =
     (None,
      st\<lparr>queue := queue st @ [ByteChunk d (offset s) (cursor s) (upToDate s)],
         closeRequested := True\<rparr>,
      markClosed s)"
  using assms
  by (simp add: after_first_def enqueue_current_def controller_enqueue_def close_and_return_def
      controller_close_def can_close_or_enqueue_def)

lemma run_ops_keeps_flags:
  "stopAfterUpToDate (snd (run_ops ops p)) = stopAfterUpToDate (snd p) \<and>
   transport (snd (run_ops ops p)) = transport (snd p)"
proof (induction ops arbitrary: p)
  case Nil
  show ?case by (simp add: run_ops_def)
next
  case (Cons op ops)
  have "stopAfterUpToDate (snd (ext_step op p)) = stopAfterUpToDate (snd p) \<and>
        transport (snd (ext_step op p)) = transport (snd p)"
    by (cases op; cases p)
       (simp_all add: cancel_def markClosed_def stream_cancel_def source_cancel_def)
  with Cons[of "ext_step op p"] show ?case by (simp add: run_ops_def)
qed

lemma first_pull_accumulating:
  assumes fr: "firstResponse s = Some r" "\<not> firstResponseConsumed st"
    and st: "can_close_or_enqueue st" "queue st = []"
    and ops: "StreamCancel \<notin> set (interleaved i)"
    and stop: "stopAfterUpToDate s"
    and b: "body r = Some rs" "read_all rs [] = Inr chunks"
  shows "\<exists>s1. clean_step s s1 \<and> transport s1 = transport s \<and>
           pull i (st, s) =
             (st\<lparr>firstResponseConsumed := True,
                queue := [ByteChunk (concat chunks) (offset s) (cursor s) (upToDate s)],
                closeRequested := True\<rparr>,
              markClosed s1)"
proof -
  let ?st = "st\<lparr>firstResponseConsumed := True\<rparr>"
  let ?s = "s\<lparr>firstResponse := None\<rparr>"
  have t: "pull_try i (st, s) = pull_first i r (?st, ?s)"
    using fr by (simp add: pull_try_def)
  have c: "can_close_or_enqueue ?st" "queue ?st = []"
    using st by (simp_all add: can_close_or_enqueue_def)
  obtain s1 where r1: "run_ops (interleaved i) (?st, ?s) = (?st, s1)"
    using run_ops_keeps_stream[OF ops, of ?st ?s]
    by (cases "run_ops (interleaved i) (?st, ?s)") auto
  have p: "position s1 = position s"
    using run_ops_keeps_stream[OF ops, of ?st ?s] r1 by (simp add: position_def)
  have f: "stopAfterUpToDate s1" "transport s1 = transport s"
    using run_ops_keeps_flags[of "interleaved i" "(?st, ?s)"] r1 stop by simp_all
  then have n: "\<not> shouldContinueLive s1" by (simp add: shouldContinueLive_def)
  have cs: "clean_step s s1"
    using clean_step_run_ops[of s "(?st, ?s)" "interleaved i"] r1 by (simp add: clean_step_refl)
  have "pull_try i (st, s) = after_first (concat chunks) (?st, s1)"
    using t b r1 by (simp add: pull_first_def)
  then have "pull i (st, s) =
      (?st\<lparr>queue := queue ?st @ [ByteChunk (concat chunks) (offset s1) (cursor s1) (upToDate s1)],
           closeRequested := True\<rparr>, markClosed s1)"
    unfolding after_first_stops[OF c(1) n] by (simp add: pull_def)
  with p c(2) cs f(2) show ?thesis by (auto simp: position_def)
qed

text \<open>
  Claim C2. Take a session in JSON mode whose initial response is caught up and whose
  body, however it is split into network chunks, is the text \<open>[1,2]\<close>. \<open>json()\<close> then
  returns the records 1 and 2; the session it leaves is closed and its promise has been
  resolved by a single call. This holds in replay mode and in the live modes alike
  (\<open>json()\<close> stops at the caught-up chunk), with the transport never called, and also when
  the session is cancelled while the body is read.
\<close>

theorem json_returns_records_and_closes:
  assumes "config_isJsonMode config" and "config_initialUpToDate config"
    and "body (config_firstResponse config) = Some rs"
    and "read_all rs [] = Inr parts" and "concat parts = utf8 ''[1,2]''"
    and "StreamCancel \<notin> set (interleaved i)"
  shows "\<exists>s'. json (i # ins) (new_StreamResponse config) =
                 Some (Inr [JNumber 1 0, JNumber 2 0], s', ins) \<and>
              state s' = Closed \<and> closedCalls s' = [Resolve] \<and> closed s' = Fulfilled \<and>
              transport s' = []"
proof -
  let ?new = "new_StreamResponse config"
  let ?s = "?new\<lparr>stopAfterUpToDate := True, state := Consuming\<rparr>"
  let ?c = "ByteChunk (utf8 ''[1,2]'') (config_initialOffset config) (config_initialCursor config) True"
  have g: "ensureJsonMode ?new = Inr ()"
    using assms(1) by (simp add: ensureJsonMode_def new_StreamResponse_def)
  have cr: "createByteStream (?new\<lparr>stopAfterUpToDate := True\<rparr>) = (new_ByteStream, ?s)"
    by (simp add: createByteStream_def markConsuming_def new_StreamResponse_def)
  have pre: "firstResponse ?s = Some (config_firstResponse config)"
    "\<not> firstResponseConsumed new_ByteStream" "can_close_or_enqueue new_ByteStream"
    "queue new_ByteStream = []" "stopAfterUpToDate ?s"
    by (simp_all add: new_StreamResponse_def new_ByteStream_def can_close_or_enqueue_def)
  from first_pull_accumulating[OF pre(1-4) assms(6) pre(5) assms(3,4)]
  obtain s1 where s1: "clean_step ?s s1" and tr: "transport s1 = transport ?s"
    and p: "pull i (new_ByteStream, ?s) =
      (new_ByteStream\<lparr>firstResponseConsumed := True,
          queue := [ByteChunk (concat parts) (offset ?s) (cursor ?s) (upToDate ?s)],
          closeRequested := True\<rparr>, markClosed s1)"
    by blast
  have ch: "ByteChunk (concat parts) (offset ?s) (cursor ?s) (upToDate ?s) = ?c"
    using assms(2,5) by (simp add: new_StreamResponse_def)
  let ?st2 = "new_ByteStream\<lparr>firstResponseConsumed := True, queue := [],
      closeRequested := True, stream_state := StreamClosed\<rparr>"
  have rd: "read (i # ins) (new_ByteStream, ?s) = Some (ReadValue ?c, ?st2, markClosed s1, ins)"
    unfolding read_def using p ch
    by (simp add: read_settled_def new_ByteStream_def)
  obtain dec' where dr: "decode_records ?c new_TextDecoder = Inr ([JNumber 1 0, JNumber 2 0], dec')"
    using decode_records_12[of ?c] by auto
  have lp: "json_loop (ReadValue ?c) [] new_TextDecoder ?st2 (markClosed s1) ins =
      Some (Inr [JNumber 1 0, JNumber 2 0], markClosed (markClosed s1), ins)"
    by (subst json_loop.simps) (simp add: dr)
  have j: "json (i # ins) ?new = Some (Inr [JNumber 1 0, JNumber 2 0], markClosed (markClosed s1), ins)"
    unfolding json_def by (simp only: g cr rd lp sum.case prod.case option.case)
  have l: "state ?s = Consuming" "closedCalls ?s = []" "transport ?s = []"
    by (simp_all add: new_StreamResponse_def)
  have "state (markClosed (markClosed s1)) = Closed"
    by (simp add: markClosed_def)
  moreover have "closedCalls (markClosed (markClosed s1)) = [Resolve]"
    using s1 l(1,2) by (auto simp: clean_step_def markClosed_def)
  moreover have "transport (markClosed (markClosed s1)) = []"
    using tr l(3) by (simp add: markClosed_def)
  ultimately show ?thesis using j by (simp add: closed_def)
qed

theorem json_returns_records_and_closes_witness:
  "config_live (example_config\<lparr>config_live := LiveOff\<rparr>) = LiveOff \<and>
   (\<exists>s'. json [example_input] (new_StreamResponse (example_config\<lparr>config_live := LiveOff\<rparr>)) =
            Some (Inr [JNumber 1 0, JNumber 2 0], s', []) \<and>
          state s' = Closed \<and> closedCalls s' = [Resolve] \<and> closed s' = Fulfilled \<and>
          transport s' = [])"
proof -
  let ?c = "example_config\<lparr>config_live := LiveOff\<rparr>"
  have "config_isJsonMode ?c" "config_initialUpToDate ?c"
    "body (config_firstResponse ?c) = Some [Chunk (utf8 ''[1,''), Chunk (utf8 ''2]'')]"
    "read_all [Chunk (utf8 ''[1,''), Chunk (utf8 ''2]'')] [] = Inr [utf8 ''[1,'', utf8 ''2]'']"
    "concat [utf8 ''[1,'', utf8 ''2]''] = utf8 ''[1,2]''"
    "StreamCancel \<notin> set (interleaved example_input)"
    by (simp_all add: example_config_def example_response_def example_input_def utf8_def)
  from json_returns_records_and_closes[OF this, of "[]"] show ?thesis
    by simp
qed

subsection \<open>A subscription whose handler throws\<close>

lemma run_subscription_append:
  "run_subscription conv dec (evs @ later) s =
     fold (sub_event conv) later (run_subscription conv dec evs s)"
  by (simp add: run_subscription_def)

text \<open>
  Once the loop has ended, an event changes the flag of the subscription, the stream and
  the session as other tasks and the producer change them, and nothing else.
\<close>

lemma sub_event_ended:
  assumes "sub_loop sub = Ended r"
  shows "sub_event conv ev sub =
     sub\<lparr>sub_aborted := sub_aborted sub \<or> ev = Outside AbortSubscription,
         sub_stream := fst (producer_step ev (sub_stream sub, sub_session sub)),
         sub_session := snd (producer_step ev (sub_stream sub, sub_session sub))\<rparr>"
proof (cases ev)
  case (Outside op)
  show ?thesis
  proof (cases op)
    case AbortSubscription
    with Outside assms show ?thesis by simp
  next
    case (Other x)
    with Outside assms show ?thesis
      by (simp add: settle_read_def split: prod.splits)
  qed
next
  case (PullSettles i)
  with assms show ?thesis
    by (simp add: settle_read_def split: prod.splits)
next
  case (HandlerSettles res)
  with assms show ?thesis by simp
qed

lemma fold_sub_event_ended:
  "sub_loop sub = Ended r \<Longrightarrow>
   fold (sub_event conv) later sub =
     sub\<lparr>sub_aborted := sub_aborted sub \<or> Outside AbortSubscription \<in> set later,
         sub_stream := fst (fold producer_step later (sub_stream sub, sub_session sub)),
         sub_session := snd (fold producer_step later (sub_stream sub, sub_session sub))\<rparr>"
proof (induction later arbitrary: sub)
  case Nil
  show ?case by simp
next
  case (Cons ev later)
  let ?sub = "sub_event conv ev sub"
  have e: "?sub =
     sub\<lparr>sub_aborted := sub_aborted sub \<or> ev = Outside AbortSubscription,
         sub_stream := fst (producer_step ev (sub_stream sub, sub_session sub)),
         sub_session := snd (producer_step ev (sub_stream sub, sub_session sub))\<rparr>"
    using sub_event_ended[OF Cons.prems] .
  then have l: "sub_loop ?sub = Ended r" using Cons.prems by simp
  have "fold (sub_event conv) (ev # later) sub = fold (sub_event conv) later ?sub" by simp
  also have "\<dots> =
     ?sub\<lparr>sub_aborted := sub_aborted ?sub \<or> Outside AbortSubscription \<in> set later,
          sub_stream := fst (fold producer_step later (sub_stream ?sub, sub_session ?sub)),
          sub_session := snd (fold producer_step later (sub_stream ?sub, sub_session ?sub))\<rparr>"
    using Cons.IH[OF l] .
  also have "\<dots> =
     sub\<lparr>sub_aborted := sub_aborted sub \<or> Outside AbortSubscription \<in> set (ev # later),
         sub_stream := fst (fold producer_step (ev # later) (sub_stream sub, sub_session sub)),
         sub_session := snd (fold producer_step (ev # later) (sub_stream sub, sub_session sub))\<rparr>"
    unfolding e by (simp add: eq_commute[of _ ev])
  finally show ?case .
qed

lemma loop_ends_on_failure:
  assumes "sub_loop sub = InHandler" "\<not> sub_aborted sub"
  shows "sub_event conv (HandlerSettles (Some e)) sub = sub\<lparr>sub_loop := Ended (LoopThrew e)\<rparr>"
  using assms by (simp add: loop_catch_def)

lemma failure_then:
  assumes "sub_loop (run_subscription conv dec evs s) = InHandler"
    and "\<not> sub_aborted (run_subscription conv dec evs s)"
  shows "run_subscription conv dec (evs @ HandlerSettles (Some e) # later) s =
     (run_subscription conv dec evs s)
       \<lparr>sub_loop := Ended (LoopThrew e),
        sub_aborted := Outside AbortSubscription \<in> set later,
        sub_stream := fst (fold producer_step later
                        (sub_stream (run_subscription conv dec evs s),
                         sub_session (run_subscription conv dec evs s))),
        sub_session := snd (fold producer_step later
                        (sub_stream (run_subscription conv dec evs s),
                         sub_session (run_subscription conv dec evs s)))\<rparr>"
proof -
  let ?sub = "run_subscription conv dec evs s"
  let ?f = "?sub\<lparr>sub_loop := Ended (LoopThrew e)\<rparr>"
  have "run_subscription conv dec (evs @ HandlerSettles (Some e) # later) s =
      fold (sub_event conv) later (sub_event conv (HandlerSettles (Some e)) ?sub)"
    by (simp add: run_subscription_append)
  also have "\<dots> = fold (sub_event conv) later ?f"
    using loop_ends_on_failure[OF assms] by simp
  also have "\<dots> =
     ?f\<lparr>sub_aborted := sub_aborted ?f \<or> Outside AbortSubscription \<in> set later,
         sub_stream := fst (fold producer_step later (sub_stream ?f, sub_session ?f)),
         sub_session := snd (fold producer_step later (sub_stream ?f, sub_session ?f))\<rparr>"
    by (rule fold_sub_event_ended[of ?f "LoopThrew e"]) simp
  finally show ?thesis using assms(2) by simp
qed

text \<open>
  A chunk that arrives while the loop waits for its read is converted and handed to the
  handler.
\<close>

lemma delivery:
  assumes "sub_loop sub = AwaitingRead" "\<not> sub_aborted sub" "should_pull (sub_stream sub)"
    and "pull i (sub_stream sub, sub_session sub) = (st', s')"
    and "read_settled st' = Some (ReadValue c, st'')"
    and "conv c (sub_decoder sub) = (Inr p, dec')"
  shows "sub_event conv (PullSettles i) sub =
     sub\<lparr>sub_loop := InHandler, sub_decoder := dec',
         sub_delivered := sub_delivered sub @ [p], sub_stream := st'', sub_session := s'\<rparr>"
  using assms by (simp add: settle_read_def loop_read_def resume_def)

lemma conversion_failure:
  assumes "sub_loop sub = AwaitingRead" "\<not> sub_aborted sub" "should_pull (sub_stream sub)"
    and "pull i (sub_stream sub, sub_session sub) = (st', s')"
    and "read_settled st' = Some (ReadValue c, st'')"
    and "conv c (sub_decoder sub) = (Inl e, dec')"
  shows "sub_event conv (PullSettles i) sub =
     sub\<lparr>sub_loop := Ended (LoopThrew e), sub_stream := st'', sub_session := s'\<rparr>"
  using assms by (simp add: settle_read_def loop_read_def resume_def loop_catch_def)

text \<open>
  Events that neither settle a pull nor cancel leave the state and the promise alone; a
  pull leaves a stream that does not pull again before it is read; the unsubscribe
  function cancels the session.
\<close>

lemma producer_idle:
  "\<not> closing_event ev \<Longrightarrow>
   state (snd (producer_step ev p)) = state (snd p) \<and>
   closedCalls (snd (producer_step ev p)) = closedCalls (snd p)"
proof (cases ev)
  case (Outside op)
  assume n: "\<not> closing_event ev"
  show ?thesis
  proof (cases op)
    case AbortSubscription
    with Outside show ?thesis by simp
  next
    case (Other x)
    with Outside n show ?thesis by (cases x; cases p) simp_all
  qed
qed simp_all

lemma fold_producer_idle:
  "\<forall>ev\<in>set later. \<not> closing_event ev \<Longrightarrow>
   state (snd (fold producer_step later p)) = state (snd p) \<and>
   closedCalls (snd (fold producer_step later p)) = closedCalls (snd p)"
proof (induction later arbitrary: p)
  case Nil
  show ?case by simp
next
  case (Cons ev later)
  from Cons.prems have "\<not> closing_event ev" and r: "\<forall>ev\<in>set later. \<not> closing_event ev"
    by simp_all
  from producer_idle[OF this(1), of p] Cons.IH[OF r, of "producer_step ev p"]
  show ?case by simp
qed

lemma controller_error_not_readable: "stream_state (controller_error e st) \<noteq> Readable"
  by (simp add: controller_error_def)

lemma close_and_return_should_pull:
  "close_and_return (st, s) = (None, st', s') \<Longrightarrow> \<not> should_pull st'"
  by (auto simp: close_and_return_def controller_close_def can_close_or_enqueue_def
      should_pull_def split: sum.splits if_splits)

lemma controller_enqueue_should_pull:
  "controller_enqueue c st = Inr st' \<Longrightarrow> \<not> should_pull st'"
  by (auto simp: controller_enqueue_def should_pull_def split: if_splits)

lemma after_emit_should_pull:
  "after_emit (st, s) = (None, st', s') \<Longrightarrow> \<not> should_pull st \<Longrightarrow> \<not> should_pull st'"
  by (auto simp: after_emit_def dest: close_and_return_should_pull split: if_splits)

lemma after_first_should_pull:
  "after_first d p = (None, st', s') \<Longrightarrow> \<not> should_pull st'"
  by (cases p)
     (auto simp: after_first_def enqueue_current_def
      dest: close_and_return_should_pull controller_enqueue_should_pull
      split: sum.splits if_splits)

lemma pull_first_should_pull:
  "pull_first i response p = (None, st', s') \<Longrightarrow> \<not> should_pull st'"
  by (cases p)
     (auto simp: pull_first_def dest: after_first_should_pull
       split: option.splits prod.splits sum.splits)

lemma pull_sse_should_pull:
  "pull_sse i p = (None, st', s') \<Longrightarrow> \<not> should_pull st'"
  by (cases p)
     (auto simp: pull_sse_def Let_def
       dest: close_and_return_should_pull after_emit_should_pull controller_enqueue_should_pull
       split: sum.splits prod.splits sse_result.splits)

lemma pull_long_poll_should_pull:
  "pull_long_poll i p = (None, st', s') \<Longrightarrow> \<not> should_pull st'"
  by (cases p)
     (auto simp: pull_long_poll_def Let_def enqueue_current_def
       dest: close_and_return_should_pull after_emit_should_pull controller_enqueue_should_pull
       split: sum.splits prod.splits if_splits)

lemma pull_try_should_pull:
  "pull_try i p = (None, st', s') \<Longrightarrow> \<not> should_pull st'"
  by (cases p)
     (auto simp: pull_try_def
       dest: pull_first_should_pull pull_sse_should_pull pull_long_poll_should_pull
         close_and_return_should_pull
       split: option.splits if_splits)

lemma pull_catch_should_pull: "\<not> should_pull (fst (pull_catch e p))"
  by (cases p)
     (auto simp: pull_catch_def should_pull_def controller_error_def controller_close_def
       split: sum.splits if_splits)

lemma pull_should_pull: "\<not> should_pull (fst (pull i p))"
proof -
  obtain r st1 s1 where t: "pull_try i p = (r, st1, s1)"
    by (cases "pull_try i p")
  show ?thesis
  proof (cases r)
    case None
    with t pull_try_should_pull[of i p st1 s1] show ?thesis by (simp add: pull_def)
  next
    case (Some e)
    with t pull_catch_should_pull[of e "(st1, s1)"] show ?thesis by (simp add: pull_def)
  qed
qed

lemma no_pull_settles:
  "\<not> should_pull (fst p) \<Longrightarrow> producer_step (PullSettles i) p = p"
  by simp

lemma outside_no_pull:
  "\<not> should_pull (fst p) \<Longrightarrow> \<not> should_pull (fst (producer_step (Outside (Other x)) p))"
  by (cases x; cases p) (simp_all add: stream_cancel_def should_pull_def)

lemma producer_step_no_pull:
  "\<not> should_pull (fst p) \<Longrightarrow> \<not> should_pull (fst (producer_step ev p))"
proof (cases ev)
  case (Outside op)
  assume n: "\<not> should_pull (fst p)"
  show ?thesis
  proof (cases op)
    case AbortSubscription
    with Outside n show ?thesis by simp
  next
    case (Other x)
    with Outside outside_no_pull[OF n, of x] show ?thesis by simp
  qed
next
  case (PullSettles i)
  assume n: "\<not> should_pull (fst p)"
  with PullSettles show ?thesis by simp
next
  case (HandlerSettles r)
  assume n: "\<not> should_pull (fst p)"
  with HandlerSettles show ?thesis by simp
qed

lemma fold_producer_no_pull:
  "\<not> should_pull (fst p) \<Longrightarrow>
   fold producer_step later p = fold producer_step (filter (\<lambda>ev. \<not> pull_event ev) later) p"
proof (induction later arbitrary: p)
  case Nil
  show ?case by simp
next
  case (Cons ev later)
  show ?case
  proof (cases ev)
    case (PullSettles i)
    have "fold producer_step (ev # later) p = fold producer_step later p"
      using no_pull_settles[OF Cons.prems, of i] PullSettles by simp
    also have "\<dots> = fold producer_step (filter (\<lambda>ev. \<not> pull_event ev) later) p"
      by (rule Cons.IH[OF Cons.prems])
    also have "\<dots> = fold producer_step (filter (\<lambda>ev. \<not> pull_event ev) (ev # later)) p"
      using PullSettles by simp
    finally show ?thesis .
  next
    case (Outside op)
    have "fold producer_step (ev # later) p = fold producer_step later (producer_step ev p)"
      by simp
    also have "\<dots> =
        fold producer_step (filter (\<lambda>ev. \<not> pull_event ev) later) (producer_step ev p)"
      by (rule Cons.IH[OF producer_step_no_pull[OF Cons.prems]])
    also have "\<dots> = fold producer_step (filter (\<lambda>ev. \<not> pull_event ev) (ev # later)) p"
      using Outside by simp
    finally show ?thesis .
  next
    case (HandlerSettles r)
    have "fold producer_step (ev # later) p = fold producer_step later (producer_step ev p)"
      by simp
    also have "\<dots> =
        fold producer_step (filter (\<lambda>ev. \<not> pull_event ev) later) (producer_step ev p)"
      by (rule Cons.IH[OF producer_step_no_pull[OF Cons.prems]])
    also have "\<dots> = fold producer_step (filter (\<lambda>ev. \<not> pull_event ev) (ev # later)) p"
      using HandlerSettles by simp
    finally show ?thesis .
  qed
qed

lemma unsubscribe_cancels:
  "fold producer_step (map Outside unsubscribe) (st, s) = (st, cancel s) \<and>
   state (cancel s) = Closed \<and>
   closedCalls (cancel s) = (if state s = Closed then closedCalls s else closedCalls s @ [Resolve])"
  by (simp add: unsubscribe_def cancel_def markClosed_def)

lemma bytes_delivery:
  fixes sub :: "(unit, ByteChunk) Subscription"
  assumes "sub_loop sub = AwaitingRead" "\<not> sub_aborted sub" "should_pull (sub_stream sub)"
    and "pull i (sub_stream sub, sub_session sub) = (st', s')"
    and "read_settled st' = Some (ReadValue c, st'')"
  shows "sub_event bytes_chunk (PullSettles i) sub =
     sub\<lparr>sub_loop := InHandler, sub_delivered := sub_delivered sub @ [c],
         sub_stream := st'', sub_session := s'\<rparr>"
  using delivery[of sub i st' s' c st'' bytes_chunk c "()", OF assms]
  by (simp add: bytes_chunk_def)

lemma text_delivery:
  assumes "sub_loop sub = AwaitingRead" "\<not> sub_aborted sub" "should_pull (sub_stream sub)"
    and "pull i (sub_stream sub, sub_session sub) = (st', s')"
    and "read_settled st' = Some (ReadValue c, st'')"
  shows "sub_event text_chunk (PullSettles i) sub =
     sub\<lparr>sub_loop := InHandler,
         sub_decoder := snd (decode True (data c) (sub_decoder sub)),
         sub_delivered := sub_delivered sub @
           [TextChunk (fst (decode True (data c) (sub_decoder sub))) (chunk_offset c)
              (chunk_cursor c) (chunk_upToDate c)],
         sub_stream := st'', sub_session := s'\<rparr>"
proof -
  have "text_chunk c (sub_decoder sub) =
      (Inr (TextChunk (fst (decode True (data c) (sub_decoder sub))) (chunk_offset c)
              (chunk_cursor c) (chunk_upToDate c)),
       snd (decode True (data c) (sub_decoder sub)))"
    by (simp add: text_chunk_def split: prod.splits)
  from delivery[of sub i st' s' c st'' text_chunk, OF assms this] show ?thesis .
qed

lemma json_delivery:
  assumes "sub_loop sub = AwaitingRead" "\<not> sub_aborted sub" "should_pull (sub_stream sub)"
    and "pull i (sub_stream sub, sub_session sub) = (st', s')"
    and "read_settled st' = Some (ReadValue c, st'')"
    and "decode_records c (sub_decoder sub) = Inr (parsed, dec')"
  shows "sub_event json_batch (PullSettles i) sub =
     sub\<lparr>sub_loop := InHandler, sub_decoder := dec',
         sub_delivered := sub_delivered sub @
           [JsonBatch parsed (chunk_offset c) (chunk_cursor c) (chunk_upToDate c)],
         sub_stream := st'', sub_session := s'\<rparr>"
proof -
  have "json_batch c (sub_decoder sub) =
      (Inr (JsonBatch parsed (chunk_offset c) (chunk_cursor c) (chunk_upToDate c)), dec')"
    using assms(6) by (simp add: json_batch_def)
  from delivery[of sub i st' s' c st'' json_batch, OF assms(1-5) this] show ?thesis .
qed

lemma run_subscription_snoc:
  "run_subscription conv dec (evs @ [ev]) s = sub_event conv ev (run_subscription conv dec evs s)"
  by (simp add: run_subscription_def)

text \<open>
  Claim C10, as the code has it. Let the handler of a subscription throw while the
  subscription has not been aborted, that is, before the unsubscribe function is called.
  The loop of each of the three subscribe methods then ends by rethrowing the error, and
  the failure does nothing else: the payloads delivered, the decoder, the stream and the
  session are what they were when the handler was called. From then on the stream and
  the session change only as other tasks and the producer change them. Events that
  neither settle a pull nor cancel leave the state and the promise alone, and the
  unsubscribe function cancels the session, which closes it if it was open. But cancelling
  is not all that can close the session: the pull that the stream has in flight when the
  loop ends still settles, and what a pull does to the session, it does then too (it is
  the last: a stream that has settled a pull makes no other before it is read); and the
  session may have been closed by an earlier pull before the handler was called. The
  theorem also states what the handler is called with: a chunk
  that arrives while the loop waits is handed over as it is, decoded in streaming mode,
  or parsed into its records.
\<close>

theorem handler_failure_ends_only_the_loop:
  "(let sub = subscribeBytes evs s in
      sub_loop sub = InHandler \<and> \<not> sub_aborted sub \<longrightarrow>
        subscribeBytes (evs @ HandlerSettles (Some e) # later) s =
          sub\<lparr>sub_loop := Ended (LoopThrew e),
              sub_aborted := Outside AbortSubscription \<in> set later,
              sub_stream := fst (fold producer_step later (sub_stream sub, sub_session sub)),
              sub_session := snd (fold producer_step later (sub_stream sub, sub_session sub))\<rparr>) \<and>
   (let sub = subscribeText evs s in
      sub_loop sub = InHandler \<and> \<not> sub_aborted sub \<longrightarrow>
        subscribeText (evs @ HandlerSettles (Some e) # later) s =
          sub\<lparr>sub_loop := Ended (LoopThrew e),
              sub_aborted := Outside AbortSubscription \<in> set later,
              sub_stream := fst (fold producer_step later (sub_stream sub, sub_session sub)),
              sub_session := snd (fold producer_step later (sub_stream sub, sub_session sub))\<rparr>) \<and>
   (isJsonMode s \<longrightarrow>
      (\<exists>sub. subscribeJson evs s = Inr sub \<and>
         (sub_loop sub = InHandler \<and> \<not> sub_aborted sub \<longrightarrow>
            subscribeJson (evs @ HandlerSettles (Some e) # later) s =
              Inr (sub\<lparr>sub_loop := Ended (LoopThrew e),
                       sub_aborted := Outside AbortSubscription \<in> set later,
                       sub_stream :=
                         fst (fold producer_step later (sub_stream sub, sub_session sub)),
                       sub_session :=
                         snd (fold producer_step later (sub_stream sub, sub_session sub))\<rparr>)))) \<and>
   (let sub = subscribeBytes evs s in
      sub_loop sub = AwaitingRead \<and> \<not> sub_aborted sub \<and> should_pull (sub_stream sub) \<and>
      pull i (sub_stream sub, sub_session sub) = (st', s') \<and>
      read_settled st' = Some (ReadValue c, st'') \<longrightarrow>
        subscribeBytes (evs @ [PullSettles i]) s =
          sub\<lparr>sub_loop := InHandler, sub_delivered := sub_delivered sub @ [c],
              sub_stream := st'', sub_session := s'\<rparr>) \<and>
   (let sub = subscribeText evs s in
      sub_loop sub = AwaitingRead \<and> \<not> sub_aborted sub \<and> should_pull (sub_stream sub) \<and>
      pull i (sub_stream sub, sub_session sub) = (st', s') \<and>
      read_settled st' = Some (ReadValue c, st'') \<longrightarrow>
        subscribeText (evs @ [PullSettles i]) s =
          sub\<lparr>sub_loop := InHandler,
              sub_decoder := snd (decode True (data c) (sub_decoder sub)),
              sub_delivered := sub_delivered sub @
                [TextChunk (fst (decode True (data c) (sub_decoder sub))) (chunk_offset c)
                   (chunk_cursor c) (chunk_upToDate c)],
              sub_stream := st'', sub_session := s'\<rparr>) \<and>
   (isJsonMode s \<longrightarrow>
      (\<exists>sub. subscribeJson evs s = Inr sub \<and>
         (sub_loop sub = AwaitingRead \<and> \<not> sub_aborted sub \<and> should_pull (sub_stream sub) \<and>
          pull i (sub_stream sub, sub_session sub) = (st', s') \<and>
          read_settled st' = Some (ReadValue c, st'') \<and>
          decode_records c (sub_decoder sub) = Inr (parsed, dec') \<longrightarrow>
            subscribeJson (evs @ [PullSettles i]) s =
              Inr (sub\<lparr>sub_loop := InHandler, sub_decoder := dec',
                       sub_delivered := sub_delivered sub @
                         [JsonBatch parsed (chunk_offset c) (chunk_cursor c) (chunk_upToDate c)],
                       sub_stream := st'', sub_session := s'\<rparr>)))) \<and>
   ((\<forall>ev\<in>set later. \<not> closing_event ev) \<longrightarrow>
      state (snd (fold producer_step later (st, s0))) = state s0 \<and>
      closedCalls (snd (fold producer_step later (st, s0))) = closedCalls s0) \<and>
   \<not> should_pull (fst (pull i (st, s0))) \<and>
   (\<not> should_pull st \<longrightarrow>
      fold producer_step later (st, s0) =
        fold producer_step (filter (\<lambda>ev. \<not> pull_event ev) later) (st, s0)) \<and>
   fold producer_step (map Outside unsubscribe) (st, s0) = (st, cancel s0) \<and>
   state (cancel s0) = Closed \<and>
   closedCalls (cancel s0) =
     (if state s0 = Closed then closedCalls s0 else closedCalls s0 @ [Resolve])"
proof -
  have fb: "let sub = subscribeBytes evs s in
      sub_loop sub = InHandler \<and> \<not> sub_aborted sub \<longrightarrow>
        subscribeBytes (evs @ HandlerSettles (Some e) # later) s =
          sub\<lparr>sub_loop := Ended (LoopThrew e),
              sub_aborted := Outside AbortSubscription \<in> set later,
              sub_stream := fst (fold producer_step later (sub_stream sub, sub_session sub)),
              sub_session := snd (fold producer_step later (sub_stream sub, sub_session sub))\<rparr>"
    unfolding Let_def subscribeBytes_def
    using failure_then[of bytes_chunk "()" evs s e later] by blast
  have ft: "let sub = subscribeText evs s in
      sub_loop sub = InHandler \<and> \<not> sub_aborted sub \<longrightarrow>
        subscribeText (evs @ HandlerSettles (Some e) # later) s =
          sub\<lparr>sub_loop := Ended (LoopThrew e),
              sub_aborted := Outside AbortSubscription \<in> set later,
              sub_stream := fst (fold producer_step later (sub_stream sub, sub_session sub)),
              sub_session := snd (fold producer_step later (sub_stream sub, sub_session sub))\<rparr>"
    unfolding Let_def subscribeText_def
    using failure_then[of text_chunk new_TextDecoder evs s e later] by blast
  have sj: "subscribeJson evs' s = Inr (run_subscription json_batch new_TextDecoder evs' s)"
    if "isJsonMode s" for evs'
    using ensureJsonMode_passes[OF that] by (simp add: subscribeJson_def)
  have fj: "\<exists>sub. subscribeJson evs s = Inr sub \<and>
         (sub_loop sub = InHandler \<and> \<not> sub_aborted sub \<longrightarrow>
            subscribeJson (evs @ HandlerSettles (Some e) # later) s =
              Inr (sub\<lparr>sub_loop := Ended (LoopThrew e),
                       sub_aborted := Outside AbortSubscription \<in> set later,
                       sub_stream :=
                         fst (fold producer_step later (sub_stream sub, sub_session sub)),
                       sub_session :=
                         snd (fold producer_step later (sub_stream sub, sub_session sub))\<rparr>))"
    if m: "isJsonMode s"
    using failure_then[of json_batch new_TextDecoder evs s e later]
    by (simp add: sj[OF m])
  have db: "let sub = subscribeBytes evs s in
      sub_loop sub = AwaitingRead \<and> \<not> sub_aborted sub \<and> should_pull (sub_stream sub) \<and>
      pull i (sub_stream sub, sub_session sub) = (st', s') \<and>
      read_settled st' = Some (ReadValue c, st'') \<longrightarrow>
        subscribeBytes (evs @ [PullSettles i]) s =
          sub\<lparr>sub_loop := InHandler, sub_delivered := sub_delivered sub @ [c],
              sub_stream := st'', sub_session := s'\<rparr>"
    unfolding Let_def subscribeBytes_def run_subscription_snoc
    using bytes_delivery[of "run_subscription bytes_chunk () evs s" i st' s' c st''] by blast
  have dt: "let sub = subscribeText evs s in
      sub_loop sub = AwaitingRead \<and> \<not> sub_aborted sub \<and> should_pull (sub_stream sub) \<and>
      pull i (sub_stream sub, sub_session sub) = (st', s') \<and>
      read_settled st' = Some (ReadValue c, st'') \<longrightarrow>
        subscribeText (evs @ [PullSettles i]) s =
          sub\<lparr>sub_loop := InHandler,
              sub_decoder := snd (decode True (data c) (sub_decoder sub)),
              sub_delivered := sub_delivered sub @
                [TextChunk (fst (decode True (data c) (sub_decoder sub))) (chunk_offset c)
                   (chunk_cursor c) (chunk_upToDate c)],
              sub_stream := st'', sub_session := s'\<rparr>"
    unfolding Let_def subscribeText_def run_subscription_snoc
    using text_delivery[of "run_subscription text_chunk new_TextDecoder evs s" i st' s' c st'']
    by blast
  have dj: "\<exists>sub. subscribeJson evs s = Inr sub \<and>
         (sub_loop sub = AwaitingRead \<and> \<not> sub_aborted sub \<and> should_pull (sub_stream sub) \<and>
          pull i (sub_stream sub, sub_session sub) = (st', s') \<and>
          read_settled st' = Some (ReadValue c, st'') \<and>
          decode_records c (sub_decoder sub) = Inr (parsed, dec') \<longrightarrow>
            subscribeJson (evs @ [PullSettles i]) s =
              Inr (sub\<lparr>sub_loop := InHandler, sub_decoder := dec',
                       sub_delivered := sub_delivered sub @
                         [JsonBatch parsed (chunk_offset c) (chunk_cursor c) (chunk_upToDate c)],
                       sub_stream := st'', sub_session := s'\<rparr>))"
    if m: "isJsonMode s"
    using json_delivery[of "run_subscription json_batch new_TextDecoder evs s" i st' s' c st''
        parsed dec']
    by (simp add: sj[OF m] run_subscription_snoc)
  have idle: "(\<forall>ev\<in>set later. \<not> closing_event ev) \<longrightarrow>
      state (snd (fold producer_step later (st, s0))) = state s0 \<and>
      closedCalls (snd (fold producer_step later (st, s0))) = closedCalls s0"
    using fold_producer_idle[of later "(st, s0)"] by simp
  have once: "\<not> should_pull (fst (pull i (st, s0)))"
    by (rule pull_should_pull)
  have last: "\<not> should_pull st \<longrightarrow>
      fold producer_step later (st, s0) =
        fold producer_step (filter (\<lambda>ev. \<not> pull_event ev) later) (st, s0)"
    using fold_producer_no_pull[of "(st, s0)" later] by simp
  have u: "fold producer_step (map Outside unsubscribe) (st, s0) = (st, cancel s0) \<and>
      state (cancel s0) = Closed \<and>
      closedCalls (cancel s0) =
        (if state s0 = Closed then closedCalls s0 else closedCalls s0 @ [Resolve])"
    by (rule unsubscribe_cancels)
  from fb ft fj db dt dj idle once last u show ?thesis by blast
qed

lemma start_subscription_example:
  "start_subscription dec (new_StreamResponse config) =
     \<lparr>sub_loop = AwaitingRead, sub_aborted = False, sub_decoder = dec, sub_delivered = [],
      sub_stream = new_ByteStream,
      sub_session = (new_StreamResponse config)\<lparr>state := Consuming\<rparr>\<rparr>"
  by (simp add: start_subscription_def createByteStream_def markConsuming_def
      new_StreamResponse_def)

lemma should_pull_new: "should_pull new_ByteStream"
  by (simp add: should_pull_def new_ByteStream_def)

lemma example_first_pull:
  "pull example_input (new_ByteStream, (new_StreamResponse example_config)\<lparr>state := Consuming\<rparr>) =
     (new_ByteStream\<lparr>firstResponseConsumed := True,
                     queue := [ByteChunk (utf8 ''[1,2]'') ''5'' (Some ''c1'') True]\<rparr>,
      (new_StreamResponse example_config)\<lparr>state := Consuming, firstResponse := None\<rparr>)"
proof -
  have live: "shouldContinueLive
      ((new_StreamResponse example_config)\<lparr>state := Consuming, firstResponse := None\<rparr>)"
    by (simp add: shouldContinueLive_def new_StreamResponse_def example_config_def)
  show ?thesis
    using live
    by (simp add: pull_def pull_try_def pull_first_def after_first_def enqueue_current_def
        controller_enqueue_def can_close_or_enqueue_def run_ops_def new_ByteStream_def
        new_StreamResponse_def example_config_def example_response_def example_input_def utf8_def)
qed

lemma example_first_read:
  "read_settled (new_ByteStream\<lparr>firstResponseConsumed := True,
                     queue := [ByteChunk (utf8 ''[1,2]'') ''5'' (Some ''c1'') True]\<rparr>) =
     Some (ReadValue (ByteChunk (utf8 ''[1,2]'') ''5'' (Some ''c1'') True),
           new_ByteStream\<lparr>firstResponseConsumed := True\<rparr>)"
  by (simp add: read_settled_def new_ByteStream_def)

lemma replay_first_pull:
  "pull example_input (new_ByteStream, (new_StreamResponse replay_config)\<lparr>state := Consuming\<rparr>) =
     (new_ByteStream\<lparr>firstResponseConsumed := True,
                     queue := [ByteChunk (utf8 ''[1,2]'') ''5'' (Some ''c1'') True],
                     closeRequested := True\<rparr>,
      (new_StreamResponse replay_config)
        \<lparr>state := Closed, firstResponse := None, closedCalls := [Resolve]\<rparr>)"
proof -
  have live: "\<not> shouldContinueLive
      ((new_StreamResponse replay_config)\<lparr>state := Consuming, firstResponse := None\<rparr>)"
    by (simp add: shouldContinueLive_def new_StreamResponse_def replay_config_def)
  have up: "upToDate ((new_StreamResponse replay_config)\<lparr>state := Consuming, firstResponse := None\<rparr>)"
    by (simp add: new_StreamResponse_def replay_config_def example_config_def)
  show ?thesis
    using live up
    by (simp add: pull_def pull_try_def pull_first_def after_first_def enqueue_current_def
        controller_enqueue_def controller_close_def close_and_return_def markClosed_def
        can_close_or_enqueue_def run_ops_def new_ByteStream_def
        new_StreamResponse_def replay_config_def example_config_def example_response_def
        example_input_def utf8_def)
qed

lemma replay_first_read:
  "read_settled (new_ByteStream\<lparr>firstResponseConsumed := True,
                     queue := [ByteChunk (utf8 ''[1,2]'') ''5'' (Some ''c1'') True],
                     closeRequested := True\<rparr>) =
     Some (ReadValue (ByteChunk (utf8 ''[1,2]'') ''5'' (Some ''c1'') True),
           new_ByteStream\<lparr>firstResponseConsumed := True, closeRequested := True,
                          stream_state := StreamClosed\<rparr>)"
  by (simp add: read_settled_def new_ByteStream_def)

lemma example_failing_pull:
  "pull failing_input
     (new_ByteStream\<lparr>firstResponseConsumed := True\<rparr>,
      (new_StreamResponse example_config)\<lparr>state := Consuming, firstResponse := None\<rparr>) =
     (new_ByteStream\<lparr>firstResponseConsumed := True,
                     stream_state := Errored (ErrorObject ''network'')\<rparr>,
      (new_StreamResponse example_config)
        \<lparr>state := Closed, firstResponse := None,
         closedCalls := [Reject (ErrorObject ''network'')],
         transport := [FetchNext ''5'' (Some ''c1'')]\<rparr>)"
proof -
  have live: "shouldContinueLive
      ((new_StreamResponse example_config)\<lparr>state := Consuming, firstResponse := None\<rparr>)"
    by (simp add: shouldContinueLive_def new_StreamResponse_def example_config_def)
  show ?thesis
    using live
    by (simp add: pull_def pull_try_def pull_long_poll_def pull_catch_def log_call_def
        controller_error_def markError_def to_Error_def run_ops_def new_ByteStream_def
        new_StreamResponse_def example_config_def failing_input_def example_input_def)
qed

theorem handler_failure_ends_only_the_loop_witness:
  "subscribeBytes [PullSettles example_input, HandlerSettles (Some (ErrorObject ''boom''))]
     (new_StreamResponse example_config) =
     \<lparr>sub_loop = Ended (LoopThrew (ErrorObject ''boom'')), sub_aborted = False,
      sub_decoder = (),
      sub_delivered = [ByteChunk (utf8 ''[1,2]'') ''5'' (Some ''c1'') True],
      sub_stream = new_ByteStream\<lparr>firstResponseConsumed := True\<rparr>,
      sub_session = (new_StreamResponse example_config)\<lparr>state := Consuming, firstResponse := None\<rparr>\<rparr> \<and>
   (\<exists>dec. subscribeJson [PullSettles example_input, HandlerSettles (Some (ErrorObject ''boom''))]
            (new_StreamResponse example_config) =
          Inr \<lparr>sub_loop = Ended (LoopThrew (ErrorObject ''boom'')), sub_aborted = False,
               sub_decoder = dec,
               sub_delivered = [JsonBatch [JNumber 1 0, JNumber 2 0] ''5'' (Some ''c1'') True],
               sub_stream = new_ByteStream\<lparr>firstResponseConsumed := True\<rparr>,
               sub_session = (new_StreamResponse example_config)
                 \<lparr>state := Consuming, firstResponse := None\<rparr>\<rparr>) \<and>
   (let sub = subscribeText [PullSettles example_input, HandlerSettles (Some (ErrorObject ''boom''))]
                (new_StreamResponse example_config)
    in sub_loop sub = Ended (LoopThrew (ErrorObject ''boom'')) \<and>
       length (sub_delivered sub) = 1 \<and>
       sub_stream sub = new_ByteStream\<lparr>firstResponseConsumed := True\<rparr> \<and>
       sub_session sub =
         (new_StreamResponse example_config)\<lparr>state := Consuming, firstResponse := None\<rparr>) \<and>
   state (snd (fold producer_step [Outside AbortSubscription, Outside (Other Abort)]
                 (new_ByteStream, new_StreamResponse example_config))) = Ready"
proof -
  let ?new = "new_StreamResponse example_config"
  let ?s = "?new\<lparr>state := Consuming, firstResponse := None\<rparr>"
  let ?c = "ByteChunk (utf8 ''[1,2]'') ''5'' (Some ''c1'') True"
  let ?st = "new_ByteStream\<lparr>firstResponseConsumed := True\<rparr>"
  let ?boom = "ErrorObject ''boom''"
  have b0: "subscribeBytes [] ?new =
      \<lparr>sub_loop = AwaitingRead, sub_aborted = False, sub_decoder = (), sub_delivered = [],
       sub_stream = new_ByteStream, sub_session = ?new\<lparr>state := Consuming\<rparr>\<rparr>"
    by (simp add: subscribeBytes_def run_subscription_def start_subscription_example)
  have b1: "subscribeBytes [PullSettles example_input] ?new =
      \<lparr>sub_loop = InHandler, sub_aborted = False, sub_decoder = (), sub_delivered = [?c],
       sub_stream = ?st, sub_session = ?s\<rparr>"
    using handler_failure_ends_only_the_loop[where evs = "[]" and s = ?new
        and i = example_input and c = ?c and st'' = ?st and s' = ?s
        and st' = "new_ByteStream\<lparr>firstResponseConsumed := True, queue := [?c]\<rparr>"]
    by (simp add: Let_def b0 should_pull_new example_first_pull example_first_read)
  have b2: "subscribeBytes [PullSettles example_input, HandlerSettles (Some ?boom)] ?new =
      \<lparr>sub_loop = Ended (LoopThrew ?boom), sub_aborted = False, sub_decoder = (),
       sub_delivered = [?c], sub_stream = ?st, sub_session = ?s\<rparr>"
    using handler_failure_ends_only_the_loop[where evs = "[PullSettles example_input]"
        and s = ?new and e = ?boom and later = "[]"]
    by (simp add: Let_def b1)
  have i: "state (snd (fold producer_step [Outside AbortSubscription, Outside (Other Abort)]
                 (new_ByteStream, ?new))) = Ready"
    using handler_failure_ends_only_the_loop[where
        later = "[Outside AbortSubscription, Outside (Other Abort)]"
        and st = new_ByteStream and s0 = ?new]
    by (simp add: new_StreamResponse_def)
  have m: "isJsonMode ?new"
    by (simp add: new_StreamResponse_def example_config_def)
  have j0: "subscribeJson [] ?new =
      Inr \<lparr>sub_loop = AwaitingRead, sub_aborted = False, sub_decoder = new_TextDecoder,
           sub_delivered = [], sub_stream = new_ByteStream,
           sub_session = ?new\<lparr>state := Consuming\<rparr>\<rparr>"
    using ensureJsonMode_passes[OF m]
    by (simp add: subscribeJson_def run_subscription_def start_subscription_example)
  obtain dec' where dr: "decode_records ?c new_TextDecoder = Inr ([JNumber 1 0, JNumber 2 0], dec')"
    using decode_records_12[of ?c] by auto
  have j1: "subscribeJson [PullSettles example_input] ?new =
      Inr \<lparr>sub_loop = InHandler, sub_aborted = False, sub_decoder = dec',
           sub_delivered = [JsonBatch [JNumber 1 0, JNumber 2 0] ''5'' (Some ''c1'') True],
           sub_stream = ?st, sub_session = ?s\<rparr>"
    using handler_failure_ends_only_the_loop[where evs = "[]" and s = ?new
        and i = example_input and c = ?c and st'' = ?st and s' = ?s
        and st' = "new_ByteStream\<lparr>firstResponseConsumed := True, queue := [?c]\<rparr>"
        and parsed = "[JNumber 1 0, JNumber 2 0]" and dec' = dec'] m dr
    by (simp add: Let_def j0 should_pull_new example_first_pull example_first_read)
  have j2: "subscribeJson [PullSettles example_input, HandlerSettles (Some ?boom)] ?new =
      Inr \<lparr>sub_loop = Ended (LoopThrew ?boom), sub_aborted = False, sub_decoder = dec',
           sub_delivered = [JsonBatch [JNumber 1 0, JNumber 2 0] ''5'' (Some ''c1'') True],
           sub_stream = ?st, sub_session = ?s\<rparr>"
    using handler_failure_ends_only_the_loop[where evs = "[PullSettles example_input]"
        and s = ?new and e = ?boom and later = "[]"] m
    by (simp add: Let_def j1)
  have t0: "subscribeText [] ?new =
      \<lparr>sub_loop = AwaitingRead, sub_aborted = False, sub_decoder = new_TextDecoder,
       sub_delivered = [], sub_stream = new_ByteStream,
       sub_session = ?new\<lparr>state := Consuming\<rparr>\<rparr>"
    by (simp add: subscribeText_def run_subscription_def start_subscription_example)
  have t1: "subscribeText [PullSettles example_input] ?new =
      \<lparr>sub_loop = InHandler, sub_aborted = False,
       sub_decoder = snd (decode True (data ?c) new_TextDecoder),
       sub_delivered = [TextChunk (fst (decode True (data ?c) new_TextDecoder)) ''5'' (Some ''c1'') True],
       sub_stream = ?st, sub_session = ?s\<rparr>"
    using handler_failure_ends_only_the_loop[where evs = "[]" and s = ?new
        and i = example_input and c = ?c and st'' = ?st and s' = ?s
        and st' = "new_ByteStream\<lparr>firstResponseConsumed := True, queue := [?c]\<rparr>"]
    by (simp add: Let_def t0 should_pull_new example_first_pull example_first_read)
  have t2: "let sub = subscribeText [PullSettles example_input, HandlerSettles (Some ?boom)] ?new
      in sub_loop sub = Ended (LoopThrew ?boom) \<and> length (sub_delivered sub) = 1 \<and>
         sub_stream sub = ?st \<and> sub_session sub = ?s"
    using handler_failure_ends_only_the_loop[where evs = "[PullSettles example_input]"
        and s = ?new and e = ?boom and later = "[]"]
    by (simp add: Let_def t1)
  from b2 j2 t2 i show ?thesis by blast
qed

text \<open>
  Two runs of \<open>subscribeBytes\<close> in which the handler throws on the first chunk and neither
  \<open>cancel()\<close> nor the unsubscribe function is ever called. In a replay the first pull has
  closed the session before the handler is called. With long-poll updates the session is
  open when the loop ends, and the pull that was in flight then fails in \<open>fetchNext\<close>: the
  session is closed and its promise rejected.
\<close>

theorem session_closed_without_cancel:
  "(let sub = subscribeBytes [PullSettles example_input, HandlerSettles (Some (ErrorObject ''boom''))]
                (new_StreamResponse replay_config)
    in sub_loop sub = Ended (LoopThrew (ErrorObject ''boom'')) \<and>
       state (sub_session sub) = Closed \<and> closedCalls (sub_session sub) = [Resolve] \<and>
       \<not> aborted (sub_session sub)) \<and>
   (let before = subscribeBytes
                   [PullSettles example_input, HandlerSettles (Some (ErrorObject ''boom''))]
                   (new_StreamResponse example_config);
        after = subscribeBytes
                  [PullSettles example_input, HandlerSettles (Some (ErrorObject ''boom'')),
                   PullSettles failing_input]
                  (new_StreamResponse example_config)
    in sub_loop before = Ended (LoopThrew (ErrorObject ''boom'')) \<and>
       state (sub_session before) = Consuming \<and> closedCalls (sub_session before) = [] \<and>
       sub_loop after = Ended (LoopThrew (ErrorObject ''boom'')) \<and>
       state (sub_session after) = Closed \<and>
       closedCalls (sub_session after) = [Reject (ErrorObject ''network'')] \<and>
       \<not> aborted (sub_session after) \<and>
       transport (sub_session after) = [FetchNext ''5'' (Some ''c1'')])"
proof -
  let ?c = "ByteChunk (utf8 ''[1,2]'') ''5'' (Some ''c1'') True"
  let ?boom = "ErrorObject ''boom''"
  have r: "subscribeBytes [PullSettles example_input, HandlerSettles (Some ?boom)]
             (new_StreamResponse replay_config) =
      \<lparr>sub_loop = Ended (LoopThrew ?boom), sub_aborted = False, sub_decoder = (),
       sub_delivered = [?c],
       sub_stream = new_ByteStream\<lparr>firstResponseConsumed := True, closeRequested := True,
                                   stream_state := StreamClosed\<rparr>,
       sub_session = (new_StreamResponse replay_config)
         \<lparr>state := Closed, firstResponse := None, closedCalls := [Resolve]\<rparr>\<rparr>"
    by (simp add: subscribeBytes_def run_subscription_def start_subscription_example
        should_pull_new replay_first_pull replay_first_read settle_read_def loop_read_def
        resume_def bytes_chunk_def loop_catch_def)
  have b: "subscribeBytes [PullSettles example_input, HandlerSettles (Some ?boom)]
             (new_StreamResponse example_config) =
      \<lparr>sub_loop = Ended (LoopThrew ?boom), sub_aborted = False, sub_decoder = (),
       sub_delivered = [?c],
       sub_stream = new_ByteStream\<lparr>firstResponseConsumed := True\<rparr>,
       sub_session = (new_StreamResponse example_config)
         \<lparr>state := Consuming, firstResponse := None\<rparr>\<rparr>"
    by (simp add: subscribeBytes_def run_subscription_def start_subscription_example
        should_pull_new example_first_pull example_first_read settle_read_def loop_read_def
        resume_def bytes_chunk_def loop_catch_def)
  have sp: "should_pull (new_ByteStream\<lparr>firstResponseConsumed := True\<rparr>)"
    by (simp add: should_pull_def new_ByteStream_def)
  have a: "subscribeBytes
             [PullSettles example_input, HandlerSettles (Some ?boom), PullSettles failing_input]
             (new_StreamResponse example_config) =
      \<lparr>sub_loop = Ended (LoopThrew ?boom), sub_aborted = False, sub_decoder = (),
       sub_delivered = [?c],
       sub_stream = new_ByteStream\<lparr>firstResponseConsumed := True,
                                   stream_state := Errored (ErrorObject ''network'')\<rparr>,
       sub_session = (new_StreamResponse example_config)
         \<lparr>state := Closed, firstResponse := None,
          closedCalls := [Reject (ErrorObject ''network'')],
          transport := [FetchNext ''5'' (Some ''c1'')]\<rparr>\<rparr>"
    using b run_subscription_snoc[of bytes_chunk "()"
        "[PullSettles example_input, HandlerSettles (Some ?boom)]" "PullSettles failing_input"
        "new_StreamResponse example_config"]
    by (simp add: subscribeBytes_def sp example_failing_pull settle_read_def)
  show ?thesis
    unfolding Let_def r b a
    by (simp add: new_StreamResponse_def replay_config_def example_config_def)
qed

end
